theory Spec2Isabelle
  imports Main "HOL-Library.AList" "HOL-Library.Multiset"
begin

section \<open>Text primitives of the interpreter\<close>

text \<open>
  A Python \<open>str\<close> is a sequence of Unicode code points. It is modelled as a list of
  natural numbers, one per code point, so that \<open>length\<close> counts what \<open>len\<close> counts and
  the subtitle texts of the program (Vietnamese, beyond Latin-1) are values of the model.
  \<open>str_of\<close> turns an ASCII literal into such a list; it is only used to write examples.
\<close>

type_synonym str = "nat list"

definition str_of :: "string \<Rightarrow> str" where
  "str_of s = map of_char s"

abbreviation (input) NL :: nat where "NL \<equiv> 10"
abbreviation (input) CR :: nat where "CR \<equiv> 13"
abbreviation (input) TAB :: nat where "TAB \<equiv> 9"
abbreviation (input) SP :: nat where "SP \<equiv> 32"
abbreviation (input) COMMA :: nat where "COMMA \<equiv> 44"
abbreviation (input) COLON :: nat where "COLON \<equiv> 58"

text \<open>
  \<open>str.isspace\<close> of one code point, which is also the class \<open>\s\<close> of \<open>re\<close> on \<open>str\<close>
  patterns and the set that \<open>str.strip()\<close> removes.
\<close>

definition isspace :: "nat \<Rightarrow> bool" where
  "isspace c \<longleftrightarrow>
     (9 \<le> c \<and> c \<le> 13) \<or> (28 \<le> c \<and> c \<le> 32) \<or> c = 133 \<or> c = 160 \<or> c = 5760 \<or>
     (8192 \<le> c \<and> c \<le> 8202) \<or> c = 8232 \<or> c = 8233 \<or> c = 8239 \<or> c = 8287 \<or> c = 12288"

text \<open>
  The class \<open>\d\<close> of \<open>re\<close> on \<open>str\<close> patterns is the Unicode category Nd. Its members
  come in runs of ten consecutive code points, digit zero first (Unicode 14, the tables of
  CPython 3.11); \<open>digit_zeros\<close> lists the first code point of every run.
\<close>

definition digit_zeros :: "nat list" where
  "digit_zeros =
     [0x30, 0x660, 0x6f0, 0x7c0, 0x966, 0x9e6, 0xa66, 0xae6, 0xb66, 0xbe6, 0xc66, 0xce6,
      0xd66, 0xde6, 0xe50, 0xed0, 0xf20, 0x1040, 0x1090, 0x17e0, 0x1810, 0x1946, 0x19d0,
      0x1a80, 0x1a90, 0x1b50, 0x1bb0, 0x1c40, 0x1c50, 0xa620, 0xa8d0, 0xa900, 0xa9d0,
      0xa9f0, 0xaa50, 0xabf0, 0xff10, 0x104a0, 0x10d30, 0x11066, 0x110f0, 0x11136,
      0x111d0, 0x112f0, 0x11450, 0x114d0, 0x11650, 0x116c0, 0x11730, 0x118e0, 0x11950,
      0x11c50, 0x11d50, 0x11da0, 0x16a60, 0x16ac0, 0x16b50, 0x1d7ce, 0x1d7d8, 0x1d7e2,
      0x1d7ec, 0x1d7f6, 0x1e140, 0x1e2f0, 0x1e950, 0x1fbf0]"

definition decimal_value :: "nat \<Rightarrow> nat option" where
  "decimal_value c =
     map_option (\<lambda>z. c - z) (find (\<lambda>z. z \<le> c \<and> c < z + 10) digit_zeros)"

definition isdecimal :: "nat \<Rightarrow> bool" where
  "isdecimal c \<longleftrightarrow> decimal_value c \<noteq> None"

text \<open>
  Exceptions are values. \<open>Value_error_int_digits\<close> is the \<open>ValueError\<close> with which the
  interpreter refuses a conversion between \<open>int\<close> and \<open>str\<close> of too many digits;
  \<open>Remote_error\<close> is whatever the call of the completion service raises, with its text;
  \<open>Runtime_error_batch\<close> wraps the exception of a future (\<open>"Loi batch: {e}"\<close>);
  \<open>Runtime_error_unparsable\<close> is the error of an empty mapping.
\<close>

datatype exn =
    Index_error
  | Value_error_int_digits
  | Value_error_range_step
  | Value_error_max_workers
  | Remote_error str
  | Runtime_error_batch exn
  | Runtime_error_unparsable

text \<open>
  The decimal value of a string of digits, and the decimal numeral of a natural number.
\<close>

definition int_of_digits :: "str \<Rightarrow> nat" where
  "int_of_digits s =
     foldl (\<lambda>a c. 10 * a + (case decimal_value c of Some d \<Rightarrow> d | None \<Rightarrow> 0)) 0 s"

function str_nat :: "nat \<Rightarrow> str" where
  "str_nat n = (if n < 10 then [48 + n] else str_nat (n div 10) @ [48 + n mod 10])"
  by pat_completeness auto
termination
  by (relation "measure id") auto

declare str_nat.simps [simp del]

text \<open>
  The interpreter limits the conversions between \<open>int\<close> and \<open>str\<close> in base ten
  (CPython 3.11, \<open>sys.int_info.default_max_str_digits\<close>; the program does not change the
  setting): a conversion that involves more than 4300 digits raises \<open>ValueError\<close>.

  \<open>py_int\<close> is \<open>int(s)\<close> for a string \<open>s\<close> that a \<open>\d+\<close> group has matched (the only
  strings the program converts); every digit of \<open>s\<close> counts, leading zeros too.
  \<open>py_str\<close> is \<open>str(n)\<close>, also the f-string form \<open>{n}\<close>, of a non-negative integer.
\<close>

definition max_str_digits :: nat where
  "max_str_digits = 4300"

definition py_int :: "str \<Rightarrow> exn + nat" where
  "py_int s =
     (if max_str_digits < length s then Inl Value_error_int_digits
      else Inr (int_of_digits s))"

definition py_str :: "nat \<Rightarrow> exn + str" where
  "py_str n =
     (if max_str_digits < length (str_nat n) then Inl Value_error_int_digits
      else Inr (str_nat n))"


text \<open>\<open>s.strip(chars)\<close>: \<open>lstrip\<close>, then \<open>rstrip\<close>. \<open>strip\<close> is \<open>s.strip()\<close>.\<close>

definition lstrip_chars :: "(nat \<Rightarrow> bool) \<Rightarrow> str \<Rightarrow> str" where
  "lstrip_chars p s = dropWhile p s"

definition rstrip_chars :: "(nat \<Rightarrow> bool) \<Rightarrow> str \<Rightarrow> str" where
  "rstrip_chars p s = rev (dropWhile p (rev s))"

definition strip_chars :: "(nat \<Rightarrow> bool) \<Rightarrow> str \<Rightarrow> str" where
  "strip_chars p s = rstrip_chars p (lstrip_chars p s)"

definition strip :: "str \<Rightarrow> str" where
  "strip s = strip_chars isspace s"

text \<open>\<open>s.replace("\r\n", "\n")\<close> and \<open>s.replace(a, b)\<close> for single code points.\<close>

fun replace_crlf :: "str \<Rightarrow> str" where
  "replace_crlf [] = []"
| "replace_crlf [c] = [c]"
| "replace_crlf (c # d # cs) =
     (if c = CR \<and> d = NL then NL # replace_crlf cs else c # replace_crlf (d # cs))"

definition replace1 :: "nat \<Rightarrow> nat \<Rightarrow> str \<Rightarrow> str" where
  "replace1 a b s = map (\<lambda>c. if c = a then b else c) s"

definition normalize_newlines :: "str \<Rightarrow> str" where
  "normalize_newlines text = replace1 CR NL (replace_crlf text)"

text \<open>\<open>s.split(d)\<close> for one code point \<open>d\<close>; the result is never empty.\<close>

fun split_on :: "nat \<Rightarrow> str \<Rightarrow> str list" where
  "split_on d [] = [[]]"
| "split_on d (c # cs) =
     (if c = d then [] # split_on d cs
      else (let r = split_on d cs in (c # hd r) # tl r))"

text \<open>\<open>s.split(d, 1)\<close>, used only where \<open>d\<close> occurs in \<open>s\<close>: the parts around the first \<open>d\<close>.\<close>

definition split_first :: "nat \<Rightarrow> str \<Rightarrow> str \<times> str" where
  "split_first d s = (takeWhile (\<lambda>c. c \<noteq> d) s, tl (dropWhile (\<lambda>c. c \<noteq> d) s))"

text \<open>\<open>sep.join(parts)\<close>.\<close>

fun join :: "str \<Rightarrow> str list \<Rightarrow> str" where
  "join sep [] = []"
| "join sep [x] = x"
| "join sep (x # y # ys) = x @ sep @ join sep (y # ys)"

text \<open>\<open>s.startswith(pat)\<close> and the substring test \<open>pat in s\<close>.\<close>

fun startswith :: "str \<Rightarrow> str \<Rightarrow> bool" where
  "startswith s [] = True"
| "startswith [] (p # ps) = False"
| "startswith (c # cs) (p # ps) = (c = p \<and> startswith cs ps)"

fun contains :: "str \<Rightarrow> str \<Rightarrow> bool" where
  "contains pat [] = (pat = [])"
| "contains pat (c # cs) = (startswith (c # cs) pat \<or> contains pat cs)"

text \<open>
  \<open>re.match(r"^\d+$", s)\<close>. Every caller passes a stripped string, so the alternative of
  \<open>$\<close> that matches before a final newline cannot arise; what is left is a non-empty
  string of decimal digits.
\<close>

definition is_numeric :: "str \<Rightarrow> bool" where
  "is_numeric s \<longleftrightarrow> s \<noteq> [] \<and> list_all isdecimal s"

definition arrow :: str where
  "arrow = [45, 45, 62]"

text \<open>
  A \<open>for\<close> loop whose body may raise: the state after the last pass, or the exception of
  the first pass that raises, which ends the loop.
\<close>

fun for_each :: "('a \<Rightarrow> 's \<Rightarrow> exn + 's) \<Rightarrow> 'a list \<Rightarrow> 's \<Rightarrow> exn + 's" where
  "for_each body [] s = Inr s"
| "for_each body (x # xs) s =
     (case body x s of
        Inl err \<Rightarrow> Inl err
      | Inr s' \<Rightarrow> for_each body xs s')"

section \<open>The unit table\<close>

text \<open>
  One unit is the dictionary \<open>{"index", "time", "src", "tr"}\<close>. Every index the program
  creates is \<open>int\<close> of a \<open>\d+\<close> match or a counter that starts at one, so it is a natural
  number.
\<close>

record item =
  index :: nat
  time :: str
  src :: str
  tr :: str

section \<open>Subtitle parser\<close>

subsection \<open>SubRip blocks\<close>

text \<open>
  \<open>re.split(r"\n\s*\n", text)\<close>. At a newline the pattern matches if the run of
  whitespace after it holds another newline, and then (greedy \<open>\s*\<close>, backtracking to
  the last newline of the run) up to and including that last newline.
  \<open>match_blank_sep\<close> gives what is left of the text after a match at its head;
  \<open>re_split_blank\<close> cuts at every match, from the left, without overlap.
\<close>

definition match_blank_sep :: "str \<Rightarrow> str option" where
  "match_blank_sep t =
     (case t of
        [] \<Rightarrow> None
      | c # cs \<Rightarrow>
          if c \<noteq> NL then None
          else (let run = takeWhile isspace cs in
                if NL \<in> set run
                then Some (rev (takeWhile (\<lambda>x. x \<noteq> NL) (rev run)) @ dropWhile isspace cs)
                else None))"

function re_split_blank :: "str \<Rightarrow> str list" where
  "re_split_blank [] = [[]]"
| "re_split_blank (c # cs) =
     (case match_blank_sep (c # cs) of
        Some rest \<Rightarrow> [] # re_split_blank rest
      | None \<Rightarrow> (let r = re_split_blank cs in (c # hd r) # tl r))"
  by pat_completeness auto
termination
proof (relation "measure length")
  fix c :: nat and cs r :: str
  assume m: "match_blank_sep (c # cs) = Some r"
  let ?run = "takeWhile isspace cs"
  from m have r: "r = rev (takeWhile (\<lambda>x. x \<noteq> NL) (rev ?run)) @ dropWhile isspace cs"
    by (auto simp: match_blank_sep_def Let_def split: if_splits)
  have "length (takeWhile (\<lambda>x. x \<noteq> NL) (rev ?run)) \<le> length ?run"
    by (metis length_rev length_takeWhile_le)
  moreover have "length ?run + length (dropWhile isspace cs) = length cs"
    by (metis length_append takeWhile_dropWhile_id)
  ultimately show "(r, c # cs) \<in> measure length"
    using r by simp
qed auto

text \<open>
  The lines of a block: \<open>[ln.strip("\n") for ln in b.split("\n") if ln.strip("\n") != ""]\<close>.
\<close>

definition block_lines :: "str \<Rightarrow> str list" where
  "block_lines b =
     map (strip_chars (\<lambda>c. c = NL))
       (filter (\<lambda>ln. strip_chars (\<lambda>c. c = NL) ln \<noteq> []) (split_on NL b))"

text \<open>
  The search for the time line over \<open>range(start_at, min(start_at + 2, len(lines)))\<close>:
  the stripped line and the new \<open>start_at\<close>, or \<open>None\<close> when no line of the window holds
  the arrow.
\<close>

fun find_time_line :: "str list \<Rightarrow> nat list \<Rightarrow> (str \<times> nat) option" where
  "find_time_line lines [] = None"
| "find_time_line lines (i # rest) =
     (if contains arrow (lines ! i) then Some (strip (lines ! i), i + 1)
      else find_time_line lines rest)"

text \<open>
  The body of the loop over the blocks, for the lines of one block: the unit it appends,
  \<open>None\<close> where it takes the next block (\<open>continue\<close>), or the exception of \<open>int\<close>, which
  is called on the leading line of digits before the time line is looked for.
  \<open>n_items\<close> is \<open>len(items)\<close>. \<open>parse_srt_block\<close> is one pass of the loop on the list
  \<open>items\<close>.
\<close>

definition srt_unit :: "nat \<Rightarrow> str list \<Rightarrow> exn + item option" where
  "srt_unit n_items lines =
     (if length lines < 2 then Inr None
      else
        (let numbered = is_numeric (strip (lines ! 0)) in
         case (if numbered
               then (case py_int (strip (lines ! 0)) of
                       Inl err \<Rightarrow> Inl err
                     | Inr i \<Rightarrow> Inr (Some i))
               else Inr None) of
           Inl err \<Rightarrow> Inl err
         | Inr idx \<Rightarrow>
             (let start_at = (if numbered then 1 else 0)
              in case find_time_line lines [start_at ..< min (start_at + 2) (length lines)] of
                   None \<Rightarrow> Inr None
                 | Some (time_line, start_at') \<Rightarrow>
                     (let src_lines = drop start_at' lines;
                          src' = strip (join [SP] (map strip src_lines));
                          idx' = (case idx of None \<Rightarrow> n_items + 1 | Some i \<Rightarrow> i)
                      in Inr (Some \<lparr>index = idx', time = time_line, src = src', tr = []\<rparr>)))))"

definition parse_srt_block :: "item list \<Rightarrow> str \<Rightarrow> exn + item list" where
  "parse_srt_block items b =
     (case srt_unit (length items) (block_lines b) of
        Inl err \<Rightarrow> Inl err
      | Inr None \<Rightarrow> Inr items
      | Inr (Some u) \<Rightarrow> Inr (items @ [u]))"

text \<open>The loop over a list of blocks, from a given list of units.\<close>

definition parse_srt_blocks :: "str list \<Rightarrow> item list \<Rightarrow> exn + item list" where
  "parse_srt_blocks blocks items = for_each (\<lambda>b acc. parse_srt_block acc b) blocks items"

definition srt_blocks :: "str \<Rightarrow> str list" where
  "srt_blocks text = re_split_blank (strip (normalize_newlines text))"

definition parse_srt :: "str \<Rightarrow> exn + item list" where
  "parse_srt text =
     (let text' = strip (normalize_newlines text) in
      if text' = [] then Inr []
      else parse_srt_blocks (re_split_blank text') [])"

text \<open>
  For the statements about SubRip input, in the words of the specification: a block has
  an index line when its first line, trimmed, is a non-empty string of digits; the window
  in which the time line is looked for is the first two lines after the optional index
  line; a block is well formed when it has at least two lines and a line with the arrow
  in that window, so that it consists of the optional index line, the time line within
  the window, and the lines of text after it (which may be none). The index line of a
  block of at least two lines is too long when it has more digits than \<open>int\<close> converts.
\<close>

definition has_index_line :: "str list \<Rightarrow> bool" where
  "has_index_line lines \<longleftrightarrow> lines \<noteq> [] \<and> is_numeric (strip (hd lines))"

definition time_window :: "str list \<Rightarrow> str list" where
  "time_window lines = take 2 (if has_index_line lines then tl lines else lines)"

definition well_formed_block :: "str list \<Rightarrow> bool" where
  "well_formed_block lines \<longleftrightarrow>
     2 \<le> length lines \<and> list_ex (contains arrow) (time_window lines)"

definition index_line_too_long :: "str list \<Rightarrow> bool" where
  "index_line_too_long lines \<longleftrightarrow>
     2 \<le> length lines \<and> has_index_line lines \<and> max_str_digits < length (strip (hd lines))"

subsection \<open>Delimited lines\<close>

text \<open>
  The body of the loop of \<open>parse_tsv_like\<close> for one line: the unit it appends, given the
  value of the counter \<open>auto_index\<close>, or the exception of \<open>int\<close>. \<open>parts\<close> is \<open>None\<close>
  for the single-field case \<open>[ln]\<close>. \<open>parse_tsv_line\<close> is one pass of the loop on its
  state, the list \<open>items\<close> and the counter.
\<close>

definition tsv_unit :: "nat \<Rightarrow> str \<Rightarrow> exn + item" where
  "tsv_unit auto_index ln =
     (let parts = (if TAB \<in> set ln then Some (split_first TAB ln)
                   else if COMMA \<in> set ln then Some (split_first COMMA ln)
                   else None)
      in case (case parts of
                 None \<Rightarrow> Inr (auto_index, strip ln)
               | Some (l, r) \<Rightarrow>
                   (let left = strip l; right = strip r in
                    if is_numeric left
                    then (case py_int left of
                            Inl err \<Rightarrow> Inl err
                          | Inr i \<Rightarrow> Inr (i, right))
                    else Inr (auto_index, strip ln))) of
           Inl err \<Rightarrow> Inl err
         | Inr (idx, src') \<Rightarrow> Inr \<lparr>index = idx, time = [], src = src', tr = []\<rparr>)"

definition parse_tsv_line :: "item list \<times> nat \<Rightarrow> str \<Rightarrow> exn + item list \<times> nat" where
  "parse_tsv_line st ln =
     (let items = fst st; auto_index = snd st
      in case tsv_unit auto_index ln of
           Inl err \<Rightarrow> Inl err
         | Inr u \<Rightarrow> Inr (items @ [u], auto_index + 1))"

definition tsv_lines :: "str \<Rightarrow> str list" where
  "tsv_lines text =
     filter (\<lambda>ln. strip ln \<noteq> []) (split_on NL (strip (normalize_newlines text)))"

definition parse_tsv_like :: "str \<Rightarrow> exn + item list" where
  "parse_tsv_like text =
     (let text' = strip (normalize_newlines text) in
      if text' = [] then Inr []
      else (case for_each (\<lambda>ln st. parse_tsv_line st ln)
                   (filter (\<lambda>ln. strip ln \<noteq> []) (split_on NL text')) ([], 1) of
              Inl err \<Rightarrow> Inl err
            | Inr st \<Rightarrow> Inr (fst st)))"

text \<open>
  For the statements about delimited lines: the left field of a line that is cut (at its
  first tab, or at its first comma when it has no tab), trimmed; and the lines whose left
  field is a string of more digits than \<open>int\<close> converts.
\<close>

definition left_field :: "str \<Rightarrow> str option" where
  "left_field ln =
     (if TAB \<in> set ln then Some (strip (takeWhile (\<lambda>c. c \<noteq> TAB) ln))
      else if COMMA \<in> set ln then Some (strip (takeWhile (\<lambda>c. c \<noteq> COMMA) ln))
      else None)"

definition left_field_too_long :: "str \<Rightarrow> bool" where
  "left_field_too_long ln \<longleftrightarrow>
     (case left_field ln of
        None \<Rightarrow> False
      | Some l \<Rightarrow> is_numeric l \<and> max_str_digits < length l)"

subsection \<open>Format detection and table load\<close>

datatype input_format = Srt | Tsv

definition detect_and_parse_subtitles :: "str \<Rightarrow> exn + item list \<times> input_format" where
  "detect_and_parse_subtitles text =
     (let tsv = (case parse_tsv_like text of
                   Inl err \<Rightarrow> Inl err
                 | Inr parsed \<Rightarrow> Inr (parsed, Tsv))
      in if contains arrow text
         then (case parse_srt text of
                 Inl err \<Rightarrow> Inl err
               | Inr parsed \<Rightarrow> if parsed \<noteq> [] then Inr (parsed, Srt) else tsv)
         else tsv)"

section \<open>Batch payload codec\<close>

text \<open>The fixed head of the user message (its code points; the text is Vietnamese).\<close>

definition payload_header :: str where
  "payload_header =
     [72, 227, 121, 32, 100, 7883, 99, 104, 32, 99, 225, 99, 32, 100, 242, 110, 103,
      32, 112, 104, 7909, 32, 273, 7873, 32, 115, 97, 117, 32, 116, 104, 101, 111, 32,
      104, 432, 7899, 110, 103, 32, 100, 7851, 110, 46, 10, 78, 72, 7854, 67, 32, 76,
      7840, 73, 32, 102, 111, 114, 109, 97, 116, 32, 98, 7855, 116, 32, 98, 117, 7897,
      99, 58, 32, 105, 110, 100, 101, 120, 58, 32, 110, 7897, 105, 32, 100, 117, 110,
      103, 32, 100, 7883, 99, 104, 10, 10, 68, 65, 78, 72, 32, 83, 193, 67, 72, 32, 67,
      7846, 78, 32, 68, 7882, 67, 72, 58, 10]"

text \<open>The flattened source of a unit: \<open>it["src"].replace("\n", " ").strip()\<close>.\<close>

definition flatten_src :: "item \<Rightarrow> str" where
  "flatten_src it = strip (replace1 NL SP (src it))"

text \<open>
  One line of the request, \<open>f"{idx}\t{src}"\<close>; formatting the index is \<open>str\<close> of an
  integer. The guide prompt is a parameter of the source function that its body never
  reads.
\<close>

definition payload_line :: "item \<Rightarrow> exn + str" where
  "payload_line it =
     (let src' = flatten_src it in
      case py_str (index it) of
        Inl err \<Rightarrow> Inl err
      | Inr idx \<Rightarrow> Inr (idx @ [TAB] @ src'))"

definition build_user_payload :: "item list \<Rightarrow> str \<Rightarrow> exn + str" where
  "build_user_payload batch_items guide_prompt =
     (case for_each (\<lambda>it lines. case payload_line it of
                                   Inl err \<Rightarrow> Inl err
                                 | Inr l \<Rightarrow> Inr (lines @ [l])) batch_items [] of
        Inl err \<Rightarrow> Inl err
      | Inr lines \<Rightarrow> Inr (payload_header @ join [NL] lines))"

text \<open>
  \<open>re.match(r"^(\d+)\s*:\s*(.*)$", ln)\<close> on a line without newline: the two groups.
  Greedy \<open>\d+\<close> and \<open>\s*\<close> can only succeed with their longest match, because the
  code point that has to follow (a colon, then anything) is in neither class.
\<close>

definition match_reply_line :: "str \<Rightarrow> (str \<times> str) option" where
  "match_reply_line ln =
     (let ds = takeWhile isdecimal ln in
      if ds = [] then None
      else (case dropWhile isspace (dropWhile isdecimal ln) of
              [] \<Rightarrow> None
            | c # rest \<Rightarrow> if c = COLON then Some (ds, dropWhile isspace rest) else None))"

text \<open>
  A \<open>dict\<close> is an association list with distinct keys in insertion order;
  \<open>mapping[idx] = tr\<close> is \<open>AList.update\<close> (in place for a known key, appended otherwise).
\<close>

type_synonym tr_dict = "(nat \<times> str) list"

definition parse_model_line :: "str \<Rightarrow> tr_dict \<Rightarrow> exn + tr_dict" where
  "parse_model_line ln0 mapping =
     (let ln = strip ln0 in
      if ln = [] then Inr mapping
      else (case match_reply_line ln of
              Some (g1, g2) \<Rightarrow>
                (case py_int g1 of
                   Inl err \<Rightarrow> Inl err
                 | Inr idx \<Rightarrow> Inr (AList.update idx (strip g2) mapping))
            | None \<Rightarrow> Inr mapping))"

definition parse_model_output :: "str \<Rightarrow> exn + tr_dict" where
  "parse_model_output output =
     for_each parse_model_line (split_on NL (strip (normalize_newlines output))) []"

text \<open>
  For the statements about the decoder: the lines that its loop sees, each trimmed; what
  a trimmed line that matches the grammar \<open><integer> : <rest>\<close> stands for, the
  integer and the trimmed rest; and the matching lines whose integer has more digits than
  \<open>int\<close> converts.
\<close>

definition reply_lines :: "str \<Rightarrow> str list" where
  "reply_lines output = map strip (split_on NL (strip (normalize_newlines output)))"

definition reply_entry :: "str \<Rightarrow> (nat \<times> str) option" where
  "reply_entry ln =
     (case match_reply_line ln of
        Some (g1, g2) \<Rightarrow> Some (int_of_digits g1, strip g2)
      | None \<Rightarrow> None)"

definition reply_index_too_long :: "str \<Rightarrow> bool" where
  "reply_index_too_long ln \<longleftrightarrow>
     (case match_reply_line ln of
        Some (g1, g2) \<Rightarrow> max_str_digits < length g1
      | None \<Rightarrow> False)"

text \<open>
  For the round trip of the codec: a service that echoes its request. It reads the lines
  of the user message after the fixed head and answers, for every line with a tab, the
  part before the first tab, a colon and a space, and the part after the tab, which is the
  reply line \<open>"{index}: {source}"\<close> of that unit; a line without tab is returned as it is.
\<close>

definition payload_lines :: "str \<Rightarrow> str list" where
  "payload_lines payload = split_on NL (drop (length payload_header) payload)"

definition echo_line :: "str \<Rightarrow> str" where
  "echo_line ln =
     (if TAB \<in> set ln
      then fst (split_first TAB ln) @ [COLON, SP] @ snd (split_first TAB ln)
      else ln)"

definition echo_reply :: "str \<Rightarrow> str" where
  "echo_reply payload = join [NL] (map echo_line (payload_lines payload))"

section \<open>Translation state store\<close>

text \<open>
  \<open>idx_to_item = {it["index"]: it for it in self.items}\<close> keeps, for an index that
  several units share, the last of them. The units are mutated in place through this
  dictionary, so the model maps an index to the position of its unit in the list.
\<close>

definition idx_to_item :: "item list \<Rightarrow> nat \<Rightarrow> nat option" where
  "idx_to_item its = map_of (rev (zip (map index its) [0..<length its]))"

text \<open>
  One pass of \<open>for idx, tr in mapping.items()\<close> on the list of units \<open>acc\<close>, with the
  dictionary \<open>lookup\<close> built before the loop; then the whole update of the units.
\<close>

definition merge_entry :: "(nat \<Rightarrow> nat option) \<Rightarrow> nat \<times> str \<Rightarrow> item list \<Rightarrow> item list" where
  "merge_entry lookup entry acc =
     (case lookup (fst entry) of
        None \<Rightarrow> acc
      | Some p \<Rightarrow> acc[p := (acc ! p)\<lparr>tr := snd entry\<rparr>])"

definition apply_translation_mapping :: "tr_dict \<Rightarrow> item list \<Rightarrow> item list" where
  "apply_translation_mapping mapping its = fold (merge_entry (idx_to_item its)) mapping its"

section \<open>Batch scheduler\<close>

text \<open>
  The messages of the status line and of the log are Vietnamese f-strings; a message is
  modelled by its kind and the values formatted into it. The integers formatted are
  counts of the run, the batch size and the pool size that \<open>on_translate\<close> has read with
  \<open>int\<close> from an entry field, and indexes that the encoder has formatted before, so that
  formatting them does not raise.
\<close>

datatype msg =
    Msg_ready
  | Msg_parsed nat input_format
  | Msg_parse_ok nat input_format
  | Msg_image_warning
  | Msg_start nat int int str
  | Msg_config str nat int int
  | Msg_nothing_to_do
  | Msg_total_batches nat
  | Msg_stopping
  | Msg_bad_format "(nat \<times> nat) option"
  | Msg_raw str
  | Msg_batch_ok nat nat nat nat nat
  | Msg_progress nat nat int
  | Msg_stop_log
  | Msg_stopped
  | Msg_done_status
  | Msg_done_log
  | Msg_error_status
  | Msg_error_log exn

text \<open>The messages of the work queue, by their \<open>kind\<close>.\<close>

datatype event =
    Status msg
  | Log msg
  | Update_translations tr_dict
  | Done
  | Error exn

text \<open>
  \<open>range(start, stop, step)\<close> for a positive step, and the loop that cuts \<open>pending\<close>
  into \<open>pending[start:start + batch_size]\<close>. \<open>range\<close> raises for a step of zero and is
  empty for a negative one.
\<close>

function py_range :: "nat \<Rightarrow> nat \<Rightarrow> nat \<Rightarrow> nat list" where
  "py_range start stop step =
     (if step = 0 \<or> stop \<le> start then [] else start # py_range (start + step) stop step)"
  by pat_completeness auto
termination
  by (relation "measure (\<lambda>(start, stop, step). stop - start)") auto

declare py_range.simps [simp del]

definition make_batches :: "int \<Rightarrow> item list \<Rightarrow> exn + item list list" where
  "make_batches batch_size pending =
     (if batch_size = 0 then Inl Value_error_range_step
      else if batch_size < 0 then Inr []
      else Inr (map (\<lambda>start. take (nat batch_size) (drop start pending))
                  (py_range 0 (length pending) (nat batch_size))))"

text \<open>The units still to translate: \<open>[it for it in self.items if not it.get("tr", "").strip()]\<close>.\<close>

definition select_pending :: "item list \<Rightarrow> item list" where
  "select_pending its = filter (\<lambda>it. strip (tr it) = []) its"

text \<open>
  The result of one worker call. \<open>rng\<close> is the field \<open>"range"\<close>; \<open>raw\<close> and \<open>rng\<close> are
  \<open>None\<close> in a skipped result.
\<close>

record batch_result =
  mapping :: tr_dict
  rng :: "(nat \<times> nat) option"
  raw :: "str option"
  skipped :: bool

text \<open>
  What the completion service does with one request: it raises, or it answers with a
  message whose content may be \<open>None\<close>.
\<close>

datatype remote_outcome = Raises str | Content "str option"

text \<open>
  \<open>translate_one_batch\<close>, given the value of the stop flag when the pool starts it and
  the service's answer to its request. A future holds the result or the exception; the
  exceptions of the encoder and of the decoder end the call like any other.
\<close>

definition translate_one_batch ::
  "bool \<Rightarrow> (str \<Rightarrow> str \<Rightarrow> remote_outcome) \<Rightarrow> str \<Rightarrow> item list \<Rightarrow> exn + batch_result" where
  "translate_one_batch stop_set service guide_prompt batch_items =
     (if stop_set then Inr \<lparr>mapping = [], rng = None, raw = None, skipped = True\<rparr>
      else (case batch_items of
              [] \<Rightarrow> Inl Index_error
            | first # _ \<Rightarrow>
                (case build_user_payload batch_items guide_prompt of
                   Inl err \<Rightarrow> Inl err
                 | Inr user_payload \<Rightarrow>
                     (case service guide_prompt user_payload of
                        Raises e \<Rightarrow> Inl (Remote_error e)
                      | Content c \<Rightarrow>
                          (let out = (case c of None \<Rightarrow> [] | Some s \<Rightarrow> s) in
                           case parse_model_output out of
                             Inl err \<Rightarrow> Inl err
                           | Inr mapping' \<Rightarrow>
                               Inr \<lparr>mapping = mapping',
                                    rng = Some (index first, index (last batch_items)),
                                    raw = Some out, skipped = False\<rparr>)))))"

text \<open>
  The surroundings of one run, which the worker does not control: the order in which the
  futures complete (positions in submission order), the value of the stop flag when the
  pool starts each batch, the answer of the service to each batch, the value of the stop
  flag at each pass of the loop over completed futures, and its value after the loop.
\<close>

record env =
  completion_order :: "nat list"
  worker_stop :: "nat \<Rightarrow> bool"
  remote :: "nat \<Rightarrow> str \<Rightarrow> str \<Rightarrow> remote_outcome"
  loop_stop :: "nat \<Rightarrow> bool"
  final_stop :: bool

text \<open>
  The futures in completion order, each with the stop flag the loop reads when it takes
  it. Positions that name no batch are ignored.
\<close>

definition as_completed :: "env \<Rightarrow> str \<Rightarrow> item list list \<Rightarrow> (bool \<times> (exn + batch_result)) list" where
  "as_completed e guide_prompt batches =
     (let order = filter (\<lambda>i. i < length batches) (completion_order e) in
      zip (map (loop_stop e) [0..<length order])
          (map (\<lambda>i. translate_one_batch (worker_stop e i) (remote e i) guide_prompt (batches ! i))
             order))"

text \<open>
  The loop \<open>for fut in as_completed(...)\<close>: the events it puts on the queue and the
  exception that ends it, if any. \<open>completed\<close> is the counter of merged batches.
\<close>

fun drain :: "nat \<Rightarrow> int \<Rightarrow> nat \<Rightarrow> (bool \<times> (exn + batch_result)) list \<Rightarrow> event list \<times> exn option" where
  "drain total_batches concurrency completed [] = ([], None)"
| "drain total_batches concurrency completed ((stop_set, fut) # rest) =
     (let stopping = (if stop_set then [Status Msg_stopping] else []) in
      case fut of
        Inl e \<Rightarrow> (stopping, Some (Runtime_error_batch e))
      | Inr res \<Rightarrow>
          if skipped res then
            (let (evs, x) = drain total_batches concurrency completed rest
             in (stopping @ evs, x))
          else if mapping res = [] then
            (stopping @ [Log (Msg_bad_format (rng res)),
                         Log (Msg_raw (case raw res of None \<Rightarrow> [] | Some s \<Rightarrow> s))],
             Some Runtime_error_unparsable)
          else
            (let completed' = completed + 1;
                 ok = (case rng res of
                         None \<Rightarrow> []
                       | Some (a, b) \<Rightarrow>
                           [Log (Msg_batch_ok a b (length (mapping res)) completed' total_batches)]);
                 (evs, x) = drain total_batches concurrency completed' rest
             in (stopping @ [Update_translations (mapping res)] @ ok
                   @ [Status (Msg_progress completed' total_batches concurrency)] @ evs, x)))"

text \<open>
  \<open>s.lower()\<close>, exact on the code points whose lower-case form holds a letter of
  \<open>image\<close> (the capital ASCII letters, and U+0130, which becomes \<open>i\<close> and U+0307); any
  other code point is left as it is, which cannot change the test for \<open>image\<close>.
\<close>

definition lower :: "str \<Rightarrow> str" where
  "lower s = concat (map (\<lambda>c. if 65 \<le> c \<and> c \<le> 90 then [c + 32]
                             else if c = 304 then [105, 775] else [c]) s)"

definition opening_events :: "nat \<Rightarrow> str \<Rightarrow> int \<Rightarrow> int \<Rightarrow> event list" where
  "opening_events total_units model_id batch_size concurrency =
     (if contains (str_of ''image'') (lower model_id) then [Log Msg_image_warning] else [])
     @ [Status (Msg_start total_units batch_size concurrency model_id),
        Log (Msg_config model_id total_units batch_size concurrency)]"

text \<open>
  \<open>_translate_worker\<close> as the sequence of what it does to the queue and to the pool, in
  program order: a message put on the queue, or a batch handed to the pool
  (\<open>executor.submit\<close>). The dictionary \<open>future_to_batch\<close> is built, and so every batch
  submitted, before the loop over the completed futures starts. Creating the client
  object makes no request and is not modelled. The executor refuses a pool of no workers.
\<close>

datatype action = Put event | Submit "item list"

definition worker_actions :: "item list \<Rightarrow> str \<Rightarrow> str \<Rightarrow> int \<Rightarrow> int \<Rightarrow> env \<Rightarrow> action list" where
  "worker_actions its model_id guide_prompt batch_size concurrency e =
     (let opening = opening_events (length its) model_id batch_size concurrency;
          pending = select_pending its in
      if pending = [] then map Put (opening @ [Log Msg_nothing_to_do, Done])
      else (case make_batches batch_size (sort_key index pending) of
              Inl x \<Rightarrow> map Put (opening @ [Error x])
            | Inr batches \<Rightarrow>
                map Put (opening @ [Log (Msg_total_batches (length batches))]) @
                (if concurrency \<le> 0 then [Put (Error Value_error_max_workers)]
                 else map Submit batches @
                      (let (evs, x) = drain (length batches) concurrency 0
                                        (as_completed e guide_prompt batches) in
                       map Put
                         (evs @ (case x of
                                   Some err \<Rightarrow> [Error err]
                                 | None \<Rightarrow>
                                     (if final_stop e then [Log Msg_stop_log, Status Msg_stopped]
                                      else []) @ [Done]))))))"

text \<open>The messages that \<open>_translate_worker\<close> puts on the queue, in order.\<close>

fun puts :: "action list \<Rightarrow> event list" where
  "puts [] = []"
| "puts (Put ev # acts) = ev # puts acts"
| "puts (Submit b # acts) = puts acts"

definition translate_worker :: "item list \<Rightarrow> str \<Rightarrow> str \<Rightarrow> int \<Rightarrow> int \<Rightarrow> env \<Rightarrow> event list" where
  "translate_worker its model_id guide_prompt batch_size concurrency e =
     puts (worker_actions its model_id guide_prompt batch_size concurrency e)"

text \<open>
  The requests that reach the completion service in a run, listed by batch: one for every
  submitted batch whose worker does not find the stop flag set and builds its request.
  The executor runs every submitted batch, also after the loop has been left by an
  exception (leaving the \<open>with\<close> block waits for the pool, which cancels nothing).
\<close>

definition remote_requests :: "item list \<Rightarrow> str \<Rightarrow> int \<Rightarrow> int \<Rightarrow> env \<Rightarrow> (str \<times> str) list" where
  "remote_requests its guide_prompt batch_size concurrency e =
     (case make_batches batch_size (sort_key index (select_pending its)) of
        Inl x \<Rightarrow> []
      | Inr batches \<Rightarrow>
          if concurrency \<le> 0 then []
          else concat (map (\<lambda>i. case build_user_payload (batches ! i) guide_prompt of
                                   Inl err \<Rightarrow> []
                                 | Inr user_payload \<Rightarrow> [(guide_prompt, user_payload)])
                         (filter (\<lambda>i. \<not> worker_stop e i) [0..<length batches])))"

section \<open>The display side\<close>

text \<open>
  The state of the application that the queue's messages change: the unit table, its
  format, the status line, the log, the error dialogs shown, the stop flag and whether a
  worker thread is recorded. The rows of the table widget are not modelled.
\<close>

record app =
  items :: "item list"
  input_format :: "input_format option"
  status_var :: msg
  log_text :: "msg list"
  error_boxes :: "exn list"
  stop_flag :: bool
  worker_thread :: bool

text \<open>One message taken from the queue by \<open>_poll_queue\<close>, and a whole queue of them.\<close>

fun poll_one :: "event \<Rightarrow> app \<Rightarrow> app" where
  "poll_one (Status m) st = st\<lparr>status_var := m\<rparr>"
| "poll_one (Log m) st = st\<lparr>log_text := log_text st @ [m]\<rparr>"
| "poll_one (Update_translations mp) st =
     st\<lparr>items := apply_translation_mapping mp (items st)\<rparr>"
| "poll_one Done st =
     st\<lparr>status_var := Msg_done_status, log_text := log_text st @ [Msg_done_log],
        worker_thread := False, stop_flag := False\<rparr>"
| "poll_one (Error x) st =
     st\<lparr>status_var := Msg_error_status, log_text := log_text st @ [Msg_error_log x],
        error_boxes := error_boxes st @ [x], worker_thread := False, stop_flag := False\<rparr>"

definition poll_queue :: "event list \<Rightarrow> app \<Rightarrow> app" where
  "poll_queue evs st = fold poll_one evs st"

text \<open>
  \<open>on_parse_to_table\<close>: nothing changes when the parsers find no unit (a warning is
  shown) or raise (the exception leaves the callback before anything is stored);
  otherwise the units, sorted by index with a stable sort, replace the table.
\<close>

definition on_parse_to_table :: "str \<Rightarrow> app \<Rightarrow> app" where
  "on_parse_to_table rawtext st =
     (case detect_and_parse_subtitles rawtext of
        Inl err \<Rightarrow> st
      | Inr (parsed, fmt) \<Rightarrow>
          if parsed = [] then st
          else st\<lparr>items := sort_key index parsed, input_format := Some fmt,
                  status_var := Msg_parsed (length parsed) fmt,
                  log_text := log_text st @ [Msg_parse_ok (length parsed) fmt]\<rparr>)"

section \<open>Notions for the statements about a run\<close>

text \<open>
  A terminal message ends a run on the display side (the worker thread is forgotten and
  the stop flag cleared): \<open>done\<close> and \<open>error\<close>. A future that the loop gets past is one
  that returned a result which is skipped or carries a mapping that is not empty;
  \<open>merged_of\<close> lists the mappings that the loop merges from such futures, and
  \<open>updates_of\<close> the mappings that a queue of messages carries.
\<close>

fun is_terminal :: "event \<Rightarrow> bool" where
  "is_terminal Done = True"
| "is_terminal (Error x) = True"
| "is_terminal ev = False"

fun passes :: "bool \<times> (exn + batch_result) \<Rightarrow> bool" where
  "passes (stop_set, Inl x) = False"
| "passes (stop_set, Inr res) = (skipped res \<or> mapping res \<noteq> [])"

fun merged_of :: "(bool \<times> (exn + batch_result)) list \<Rightarrow> tr_dict list" where
  "merged_of [] = []"
| "merged_of ((stop_set, Inl x) # rest) = merged_of rest"
| "merged_of ((stop_set, Inr res) # rest) =
     (if skipped res \<or> mapping res = [] then merged_of rest else mapping res # merged_of rest)"

fun updates_of :: "event list \<Rightarrow> tr_dict list" where
  "updates_of [] = []"
| "updates_of (Update_translations mp # evs) = mp # updates_of evs"
| "updates_of (ev # evs) = updates_of evs"

section \<open>Properties of the batch partition\<close>

lemma py_range_concat:
  "0 < step \<Longrightarrow> start \<le> length xs \<Longrightarrow>
   concat (map (\<lambda>s. take step (drop s xs)) (py_range start (length xs) step)) = drop start xs"
proof (induction start "length xs" step rule: py_range.induct)
  case (1 start step)
  show ?case
  proof (cases "length xs \<le> start")
    case True
    with 1 show ?thesis by (simp add: py_range.simps)
  next
    case False
    with 1 have ih: "concat (map (\<lambda>s. take step (drop s xs)) (py_range (start + step) (length xs) step))
                 = drop (start + step) xs"
      proof (cases "start + step \<le> length xs")
        case True with 1 False show ?thesis by simp
      next
        case F2: False
        then show ?thesis by (simp add: py_range.simps)
      qed
    have "py_range start (length xs) step = start # py_range (start + step) (length xs) step"
      using False 1 by (subst py_range.simps) simp
    moreover have "take step (drop start xs) @ drop (start + step) xs = drop start xs"
      by (metis add.commute append_take_drop_id drop_drop)
    ultimately show ?thesis using ih by simp
  qed
qed

lemma py_range_nth:
  "0 < step \<Longrightarrow> k < length (py_range start stop step) \<Longrightarrow>
   py_range start stop step ! k = start + k * step"
proof (induction start stop step arbitrary: k rule: py_range.induct)
  case (1 start stop step)
  from 1(3) have ne: "\<not> stop \<le> start" by (subst (asm) py_range.simps) (auto split: if_splits)
  have eq: "py_range start stop step = start # py_range (start + step) stop step"
    using ne 1(2) by (subst py_range.simps) simp
  show ?case
  proof (cases k)
    case 0
    then show ?thesis using eq by simp
  next
    case (Suc j)
    with 1(3) eq have "j < length (py_range (start + step) stop step)" by simp
    with 1(1)[of j] ne 1(2) have "py_range (start + step) stop step ! j = start + step + j * step" by simp
    then show ?thesis using eq Suc by simp
  qed
qed

lemma py_range_bounds:
  "0 < step \<Longrightarrow> s \<in> set (py_range start stop step) \<Longrightarrow> start \<le> s \<and> s < stop"
proof (induction start stop step rule: py_range.induct)
  case (1 start stop step)
  from 1(3) have ne: "\<not> stop \<le> start" by (subst (asm) py_range.simps) (auto split: if_splits)
  have eq: "py_range start stop step = start # py_range (start + step) stop step"
    using ne 1(2) by (subst py_range.simps) simp
  from 1(3) eq have "s = start \<or> s \<in> set (py_range (start + step) stop step)" by simp
  then show ?case
  proof
    assume "s = start" with ne show ?thesis by simp
  next
    assume "s \<in> set (py_range (start + step) stop step)"
    with 1(1) ne 1(2) have "start + step \<le> s \<and> s < stop" by simp
    then show ?thesis by simp
  qed
qed

lemma py_range_butlast:
  "0 < step \<Longrightarrow> s \<in> set (butlast (py_range start stop step)) \<Longrightarrow> s + step < stop"
proof (induction start stop step rule: py_range.induct)
  case (1 start stop step)
  have ne: "\<not> stop \<le> start" using 1(3) by (subst (asm) py_range.simps) (auto split: if_splits)
  have eq: "py_range start stop step = start # py_range (start + step) stop step"
    using ne 1(2) by (subst py_range.simps) simp
  show ?case
  proof (cases "py_range (start + step) stop step = []")
    case True
    with eq 1(3) show ?thesis by simp
  next
    case False
    then have "\<not> stop \<le> start + step" by (subst (asm) py_range.simps) (auto split: if_splits)
    moreover from 1(3) eq False have "s = start \<or> s \<in> set (butlast (py_range (start + step) stop step))" by simp
    ultimately show ?thesis using 1(1) ne 1(2) by auto
  qed
qed

lemma py_range_17_5: "py_range 0 17 5 = [0, 5, 10, 15]"
  by (simp add: py_range.simps)

lemma batch_slices:
  fixes xs :: "'a list"
  assumes "0 < step"
  defines "bs \<equiv> map (\<lambda>s. take step (drop s xs)) (py_range 0 (length xs) step)"
  shows "concat bs = xs"
    and "\<And>k. k < length bs \<Longrightarrow> bs ! k = take step (drop (k * step) xs)"
    and "\<And>b. b \<in> set (butlast bs) \<Longrightarrow> length b = step"
    and "xs \<noteq> [] \<Longrightarrow> bs \<noteq> [] \<and> last bs \<noteq> [] \<and> length (last bs) \<le> step"
proof -
  show "concat bs = xs"
    using py_range_concat [OF assms(1), of 0 xs] by (simp add: bs_def)
  show "bs ! k = take step (drop (k * step) xs)" if "k < length bs" for k
    using that py_range_nth [OF assms(1), of k 0 "length xs"] by (simp add: bs_def)
  show "length b = step" if "b \<in> set (butlast bs)" for b
  proof -
    from that obtain s where s: "s \<in> set (butlast (py_range 0 (length xs) step))"
      and b: "b = take step (drop s xs)"
      by (auto simp: bs_def map_butlast [symmetric])
    from py_range_butlast [OF assms(1) s] have "s + step < length xs" .
    then show ?thesis using b by simp
  qed
  show "bs \<noteq> [] \<and> last bs \<noteq> [] \<and> length (last bs) \<le> step" if "xs \<noteq> []"
  proof -
    from that assms(1) have ne: "py_range 0 (length xs) step \<noteq> []"
      by (subst py_range.simps) simp
    then have "last (py_range 0 (length xs) step) \<in> set (py_range 0 (length xs) step)"
      by simp
    from py_range_bounds [OF assms(1) this]
    have "last (py_range 0 (length xs) step) < length xs" by simp
    then show ?thesis using ne assms(1) by (simp add: bs_def last_map)
  qed
qed

text \<open>
  Claim C6. For a non-empty list of pending units and a batch size above zero, the worker
  sorts the pending units by ascending index and cuts them into consecutive slices: batch
  \<open>k\<close> is the slice of \<open>batch_size\<close> units from position \<open>k * batch_size\<close> on. Every
  batch but the last holds exactly \<open>batch_size\<close> units, the last one is not empty and
  holds at most \<open>batch_size\<close>, and the batches in order, put end to end, are the sorted
  pending list. With 17 pending units and a batch size of 5 the sizes are 5, 5, 5, 2.
\<close>

theorem batches_partition:
  assumes "pending \<noteq> []" and "0 < batch_size"
  shows "\<exists>batches.
           make_batches batch_size (sort_key index pending) = Inr batches
         \<and> sorted (map index (sort_key index pending))
         \<and> mset (sort_key index pending) = mset pending
         \<and> concat batches = sort_key index pending
         \<and> batches \<noteq> []
         \<and> (\<forall>k < length batches.
               batches ! k
                 = take (nat batch_size) (drop (k * nat batch_size) (sort_key index pending)))
         \<and> (\<forall>b \<in> set (butlast batches). int (length b) = batch_size)
         \<and> last batches \<noteq> [] \<and> int (length (last batches)) \<le> batch_size
         \<and> (length pending = 17 \<and> batch_size = 5 \<longrightarrow> map length batches = [5, 5, 5, 2])"
proof -
  let ?xs = "sort_key index pending"
  let ?n = "nat batch_size"
  let ?bs = "map (\<lambda>s. take ?n (drop s ?xs)) (py_range 0 (length ?xs) ?n)"
  have pos: "0 < ?n" using assms(2) by simp
  have ne: "?xs \<noteq> []" using assms(1) by (metis length_0_conv length_sort)
  have mk: "make_batches batch_size ?xs = Inr ?bs"
    using assms(2) by (simp add: make_batches_def)
  have ex: "length pending = 17 \<and> batch_size = 5 \<longrightarrow> map length ?bs = [5, 5, 5, 2]"
    by (simp add: py_range_17_5)
  have full: "\<forall>b \<in> set (butlast ?bs). int (length b) = batch_size"
  proof
    fix b assume "b \<in> set (butlast ?bs)"
    then have "length b = ?n" by (rule batch_slices(3) [OF pos])
    then show "int (length b) = batch_size" using assms(2) by simp
  qed
  have slice: "\<forall>k < length ?bs. ?bs ! k = take ?n (drop (k * ?n) ?xs)"
    using batch_slices(2) [OF pos, of _ ?xs] by blast
  have lst: "?bs \<noteq> [] \<and> last ?bs \<noteq> [] \<and> length (last ?bs) \<le> ?n"
    by (rule batch_slices(4) [OF pos ne])
  then have lst': "int (length (last ?bs)) \<le> batch_size" using assms(2) by linarith
  have cc: "concat ?bs = ?xs" by (rule batch_slices(1) [OF pos])
  show ?thesis
  proof (intro exI conjI)
    show "make_batches batch_size ?xs = Inr ?bs" by (rule mk)
    show "sorted (map index ?xs)" by simp
    show "mset ?xs = mset pending" by simp
    show "concat ?bs = ?xs" by (rule cc)
    show "?bs \<noteq> []" using lst by blast
    show "\<forall>k < length ?bs. ?bs ! k = take ?n (drop (k * ?n) ?xs)" by (rule slice)
    show "\<forall>b \<in> set (butlast ?bs). int (length b) = batch_size" by (rule full)
    show "last ?bs \<noteq> []" using lst by blast
    show "int (length (last ?bs)) \<le> batch_size" by (rule lst')
    show "length pending = 17 \<and> batch_size = 5 \<longrightarrow> map length ?bs = [5, 5, 5, 2]" by (rule ex)
  qed
qed

theorem batches_partition_witness:
  "\<exists>batches.
      make_batches 2 (sort_key index
         [\<lparr>index = 3, time = [], src = [], tr = []\<rparr>, \<lparr>index = 1, time = [], src = [], tr = []\<rparr>,
          \<lparr>index = 2, time = [], src = [], tr = []\<rparr>]) = Inr batches
    \<and> concat batches =
         [\<lparr>index = 1, time = [], src = [], tr = []\<rparr>, \<lparr>index = 2, time = [], src = [], tr = []\<rparr>,
          \<lparr>index = 3, time = [], src = [], tr = []\<rparr>]
    \<and> last batches \<noteq> []"
proof -
  let ?p = "[\<lparr>index = 3, time = [], src = [], tr = []\<rparr>, \<lparr>index = 1, time = [], src = [], tr = []\<rparr>,
          \<lparr>index = (2::nat), time = [], src = [], tr = []\<rparr>]"
  have h1: "?p \<noteq> []" by simp
  have h2: "(0::int) < 2" by simp
  have s: "sort_key index ?p = [\<lparr>index = 1, time = [], src = [], tr = []\<rparr>, \<lparr>index = 2, time = [], src = [], tr = []\<rparr>,
          \<lparr>index = 3, time = [], src = [], tr = []\<rparr>]" by simp
  from batches_partition [OF h1 h2] obtain batches where
    "make_batches 2 (sort_key index ?p) = Inr batches"
    "concat batches = sort_key index ?p" "last batches \<noteq> []"
    by (elim exE conjE)
  then show ?thesis unfolding s by (intro exI conjI)
qed

section \<open>Stripping\<close>

lemmas text_eval =
  str_of_def strip_def strip_chars_def lstrip_chars_def rstrip_chars_def isspace_def

lemma strip_empty_iff: "strip s = [] \<longleftrightarrow> list_all isspace s"
proof
  assume "list_all isspace s"
  then have "dropWhile isspace s = []" by (metis dropWhile_eq_Nil_conv list_all_iff)
  then show "strip s = []"
    by (simp only: strip_def strip_chars_def lstrip_chars_def rstrip_chars_def
          rev.simps dropWhile.simps)
next
  assume a: "strip s = []"
  show "list_all isspace s"
  proof (rule ccontr)
    assume "\<not> list_all isspace s"
    then have ne: "dropWhile isspace s \<noteq> []" by (metis dropWhile_eq_Nil_conv list_all_iff)
    then have "\<not> isspace (hd (dropWhile isspace s))" by (rule hd_dropWhile)
    moreover have "hd (dropWhile isspace s) \<in> set (rev (dropWhile isspace s))"
      using ne by simp
    ultimately have "dropWhile isspace (rev (dropWhile isspace s)) \<noteq> []"
      by (metis dropWhile_eq_Nil_conv)
    then show False using a
      by (simp only: strip_def strip_chars_def lstrip_chars_def rstrip_chars_def rev_is_Nil_conv)
  qed
qed

lemma strip_Nil: "strip [] = []"
  by (simp add: strip_def strip_chars_def lstrip_chars_def rstrip_chars_def)


subsection \<open>More on stripping\<close>

lemma strip_space_left: "list_all isspace w \<Longrightarrow> strip (w @ x) = strip x"
  by (simp add: strip_def strip_chars_def lstrip_chars_def list_all_iff dropWhile_append2)

lemma strip_space_right:
  assumes "list_all isspace w"
  shows "strip (x @ w) = strip x"
proof (cases "list_all isspace x")
  case True
  with assms have "list_all isspace (x @ w)" by simp
  then show ?thesis using True by (simp only: strip_empty_iff [THEN iffD2])
next
  case False
  then obtain c where c: "c \<in> set x" "\<not> isspace c" by (auto simp: list_all_iff)
  then have l: "dropWhile isspace (x @ w) = dropWhile isspace x @ w"
    by (simp add: dropWhile_append1)
  have "dropWhile isspace (rev w @ rev (dropWhile isspace x))
          = dropWhile isspace (rev (dropWhile isspace x))"
    by (rule dropWhile_append2) (use assms in \<open>simp add: list_all_iff\<close>)
  then show ?thesis
    by (simp add: strip_def strip_chars_def lstrip_chars_def rstrip_chars_def l)
qed

lemma strip_stripped:
  assumes "s = [] \<or> (\<not> isspace (hd s) \<and> \<not> isspace (last s))"
  shows "strip s = s"
proof (cases s)
  case Nil
  then show ?thesis by (simp add: strip_Nil)
next
  case (Cons c cs)
  with assms have h: "\<not> isspace c" and l: "\<not> isspace (last s)" by auto
  from h Cons have "dropWhile isspace s = s" by simp
  moreover have "dropWhile isspace (rev s) = rev s"
  proof (cases "rev s")
    case Nil
    then show ?thesis by simp
  next
    case r: (Cons a list)
    then have "a = last s" by (metis hd_rev list.sel(1))
    with l have "\<not> isspace a" by simp
    then show ?thesis unfolding r by simp
  qed
  ultimately show ?thesis
    by (simp add: strip_def strip_chars_def lstrip_chars_def rstrip_chars_def)
qed

lemma strip_ends:
  "strip s = [] \<or> (\<not> isspace (hd (strip s)) \<and> \<not> isspace (last (strip s)))"
proof (cases "strip s = []")
  case True
  then show ?thesis by simp
next
  case False
  let ?l = "dropWhile isspace s"
  let ?r = "dropWhile isspace (rev ?l)"
  have s: "strip s = rev ?r"
    by (simp add: strip_def strip_chars_def lstrip_chars_def rstrip_chars_def)
  with False have r: "?r \<noteq> []" by simp
  then have "\<not> isspace (hd ?r)" by (rule hd_dropWhile)
  then have last: "\<not> isspace (last (strip s))" using r s by (simp add: last_rev)
  have l: "?l \<noteq> []"
  proof
    assume "?l = []"
    then have "?r = []" by (simp only: rev.simps dropWhile.simps)
    with r show False by simp
  qed
  then have hl: "\<not> isspace (hd ?l)" by (rule hd_dropWhile)
  have "hd (rev ?r) = hd ?l"
  proof -
    have "rev ?l = takeWhile isspace (rev ?l) @ ?r" by simp
    then have "?l = rev ?r @ rev (takeWhile isspace (rev ?l))"
      by (metis rev_append rev_rev_ident)
    then show ?thesis using r by (metis hd_append2 rev_is_Nil_conv)
  qed
  then show ?thesis using hl last s by simp
qed

lemma strip_idem: "strip (strip s) = strip s"
  by (rule strip_stripped) (rule strip_ends)

lemma strip_subset: "set (strip s) \<subseteq> set s"
proof -
  have "set (strip s) \<subseteq> set (dropWhile isspace s)"
    using set_dropWhileD [of _ isspace "rev (dropWhile isspace s)"]
    by (auto simp: strip_def strip_chars_def lstrip_chars_def rstrip_chars_def)
  then show ?thesis using set_dropWhileD [of _ isspace s] by blast
qed



subsection \<open>Splitting and joining\<close>

lemma split_on_nonempty: "split_on d s \<noteq> []"
  by (cases s) (simp_all add: Let_def)


lemma join_Cons: "ys \<noteq> [] \<Longrightarrow> join sep (x # ys) = x @ sep @ join sep ys"
  by (cases ys) simp_all

lemma join_merge: "join sep (xs @ [a]) @ join sep (b # ys) = join sep (xs @ (a @ b) # ys)"
proof (induction xs)
  case Nil
  then show ?case by (cases ys) simp_all
next
  case (Cons x xs)
  have "join sep ((x # xs) @ [a]) = x @ sep @ join sep (xs @ [a])"
    using join_Cons [of "xs @ [a]" sep x] by simp
  moreover have "join sep ((x # xs) @ (a @ b) # ys) = x @ sep @ join sep (xs @ (a @ b) # ys)"
    using join_Cons [of "xs @ (a @ b) # ys" sep x] by simp
  ultimately show ?case using Cons.IH by simp
qed

lemma split_on_free: "d \<notin> set x \<Longrightarrow> split_on d x = [x]"
  by (induction x) (simp_all add: Let_def)

lemma split_on_cut: "d \<notin> set x \<Longrightarrow> split_on d (x @ d # r) = x # split_on d r"
  by (induction x) (simp_all add: Let_def)

lemma split_join:
  "ls \<noteq> [] \<Longrightarrow> \<forall>l \<in> set ls. d \<notin> set l \<Longrightarrow> split_on d (join [d] ls) = ls"
proof (induction ls)
  case Nil
  then show ?case by simp
next
  case (Cons x ls)
  show ?case
  proof (cases "ls = []")
    case True
    with Cons.prems show ?thesis by (simp add: split_on_free)
  next
    case False
    with Cons show ?thesis by (simp add: join_Cons split_on_cut)
  qed
qed

lemma join_split:
  "join [d] (split_on d s) = s \<and> (\<forall>l \<in> set (split_on d s). d \<notin> set l)"
proof (induction s)
  case Nil
  then show ?case by simp
next
  case (Cons c s)
  obtain y ys where r: "split_on d s = y # ys"
    by (cases "split_on d s") (use split_on_nonempty [of d s] in auto)
  show ?case
  proof (cases "c = d")
    case True
    then show ?thesis using Cons r by (simp add: join_Cons)
  next
    case False
    have "join [d] ((c # y) # ys) = c # join [d] (y # ys)"
      by (cases ys) simp_all
    then show ?thesis using False Cons r by (simp add: Let_def)
  qed
qed

lemma split_on_append:
  "split_on d (a @ b)
     = butlast (split_on d a) @ (last (split_on d a) @ hd (split_on d b)) # tl (split_on d b)"
proof -
  let ?A = "split_on d a" and ?B = "split_on d b"
  have A: "?A = butlast ?A @ [last ?A]" using split_on_nonempty [of d a] by simp
  have B: "?B = hd ?B # tl ?B" using split_on_nonempty [of d b] by simp
  have "a @ b = join [d] ?A @ join [d] ?B" by (simp add: join_split)
  also have "\<dots> = join [d] (butlast ?A @ [last ?A]) @ join [d] (hd ?B # tl ?B)"
    using A B by simp
  also have "\<dots> = join [d] (butlast ?A @ (last ?A @ hd ?B) # tl ?B)"
    by (rule join_merge)
  finally have ab: "a @ b = join [d] (butlast ?A @ (last ?A @ hd ?B) # tl ?B)" .
  have "\<forall>l \<in> set (butlast ?A @ (last ?A @ hd ?B) # tl ?B). d \<notin> set l"
  proof
    fix l assume "l \<in> set (butlast ?A @ (last ?A @ hd ?B) # tl ?B)"
    then consider "l \<in> set (butlast ?A)" | "l = last ?A @ hd ?B" | "l \<in> set (tl ?B)" by auto
    then show "d \<notin> set l"
    proof cases
      case 1
      then have "l \<in> set ?A" by (rule in_set_butlastD)
      then show ?thesis using join_split [of d a] by blast
    next
      case 2
      have "last ?A \<in> set ?A" "hd ?B \<in> set ?B"
        using split_on_nonempty [of d a] split_on_nonempty [of d b] by simp_all
      then show ?thesis using 2 join_split [of d a] join_split [of d b] by auto
    next
      case 3
      then have "l \<in> set ?B" using split_on_nonempty [of d b] by (metis list.set_sel(2))
      then show ?thesis using join_split [of d b] by blast
    qed
  qed
  then have "split_on d (join [d] (butlast ?A @ (last ?A @ hd ?B) # tl ?B))
               = butlast ?A @ (last ?A @ hd ?B) # tl ?B"
    by (intro split_join) simp_all
  then show ?thesis by (simp only: ab [symmetric])
qed



subsection \<open>Texts without carriage return\<close>

lemma replace_crlf_id: "CR \<notin> set s \<Longrightarrow> replace_crlf s = s"
  by (induction s rule: replace_crlf.induct) simp_all

lemma normalize_newlines_id: "CR \<notin> set s \<Longrightarrow> normalize_newlines s = s"
proof -
  assume cr: "CR \<notin> set s"
  have "map (\<lambda>c. if c = CR then NL else c) s = s"
    by (rule map_idI) (use cr in auto)
  then show ?thesis using cr by (simp add: normalize_newlines_def replace_crlf_id replace1_def)
qed


subsection \<open>Decimal strings\<close>

lemma decimal_value_ascii: "48 \<le> c \<Longrightarrow> c \<le> 57 \<Longrightarrow> decimal_value c = Some (c - 48)"
  by (simp add: decimal_value_def digit_zeros_def)

lemma str_nat_digits: "c \<in> set (str_nat n) \<Longrightarrow> 48 \<le> c \<and> c \<le> 57"
proof (induction n rule: str_nat.induct)
  case (1 n)
  show ?case
  proof (cases "n < 10")
    case True
    with "1.prems" show ?thesis by (subst (asm) str_nat.simps) simp
  next
    case False
    with "1.prems" have "c \<in> set (str_nat (n div 10)) \<or> c = 48 + n mod 10"
      by (subst (asm) str_nat.simps) auto
    then show ?thesis using "1.IH" [OF False] by auto
  qed
qed

lemma str_nat_nonempty: "str_nat n \<noteq> []"
  by (subst str_nat.simps) simp

lemma int_of_digits_snoc:
  "int_of_digits (s @ [c])
     = 10 * int_of_digits s + (case decimal_value c of Some d \<Rightarrow> d | None \<Rightarrow> 0)"
  by (simp add: int_of_digits_def)

lemma int_of_digits_str_nat: "int_of_digits (str_nat n) = n"
proof (induction n rule: str_nat.induct)
  case (1 n)
  show ?case
  proof (cases "n < 10")
    case True
    then have "str_nat n = [48 + n]" by (subst str_nat.simps) simp
    moreover have "decimal_value (48 + n) = Some n"
      using True decimal_value_ascii [of "48 + n"] by simp
    ultimately show ?thesis by (simp add: int_of_digits_def)
  next
    case False
    then have s: "str_nat n = str_nat (n div 10) @ [48 + n mod 10]"
      by (subst str_nat.simps) simp
    have "decimal_value (48 + n mod 10) = Some (n mod 10)"
      using decimal_value_ascii [of "48 + n mod 10"] by simp
    then show ?thesis using "1.IH" [OF False] unfolding s int_of_digits_snoc by simp
  qed
qed

lemma str_nat_decimal: "list_all isdecimal (str_nat n)"
  unfolding list_all_iff isdecimal_def
  using str_nat_digits decimal_value_ascii by fastforce

lemma str_nat_no_space: "c \<in> set (str_nat n) \<Longrightarrow> \<not> isspace c"
  using str_nat_digits [of c n] by (auto simp: isspace_def)

lemma colon_class: "\<not> isspace COLON" "\<not> isdecimal COLON"
  by (simp_all add: isspace_def isdecimal_def decimal_value_def digit_zeros_def)

subsection \<open>The limit on digits\<close>

lemma py_int_short: "length s \<le> max_str_digits \<Longrightarrow> py_int s = Inr (int_of_digits s)"
  by (simp add: py_int_def)

lemma py_int_long: "max_str_digits < length s \<Longrightarrow> py_int s = Inl Value_error_int_digits"
  by (simp add: py_int_def)


lemma decimal_value_less: "decimal_value c = Some d \<Longrightarrow> d < 10"
  by (auto simp: decimal_value_def find_Some_iff)

lemma int_of_digits_less: "int_of_digits s < 10 ^ length s"
proof (induction s rule: rev_induct)
  case Nil
  then show ?case by (simp add: int_of_digits_def)
next
  case (snoc c s)
  have "(case decimal_value c of Some d \<Rightarrow> d | None \<Rightarrow> 0) < 10"
    using decimal_value_less [of c] by (cases "decimal_value c") simp_all
  then show ?case using snoc unfolding int_of_digits_snoc by simp
qed

lemma str_nat_length: "n < 10 ^ k \<Longrightarrow> 0 < k \<Longrightarrow> length (str_nat n) \<le> k"
proof (induction n arbitrary: k rule: str_nat.induct)
  case (1 n)
  show ?case
  proof (cases "n < 10")
    case True
    then have "str_nat n = [48 + n]" by (subst str_nat.simps) simp
    then show ?thesis using "1.prems"(2) by simp
  next
    case False
    then have s: "str_nat n = str_nat (n div 10) @ [48 + n mod 10]"
      by (subst str_nat.simps) simp
    from "1.prems"(2) obtain j where k: "k = Suc j" by (cases k) auto
    with False "1.prems"(1) have j: "0 < j" by (cases j) auto
    from "1.prems"(1) k have "n div 10 < 10 ^ j"
      by (simp add: less_mult_imp_div_less mult.commute)
    from "1.IH" [OF False this j] show ?thesis unfolding s k by simp
  qed
qed

text \<open>An index that \<open>int\<close> has returned is one that \<open>str\<close> prints.\<close>

lemma py_int_prints:
  assumes "py_int s = Inr n"
  shows "py_str n = Inr (str_nat n)"
proof -
  from assms have len: "length s \<le> max_str_digits" and n: "n = int_of_digits s"
    by (auto simp: py_int_def split: if_splits)
  have "length (str_nat n) \<le> max_str_digits"
  proof (cases "s = []")
    case True
    then have "n = 0" using n by (simp add: int_of_digits_def)
    then show ?thesis by (simp add: str_nat.simps max_str_digits_def)
  next
    case False
    then have "length (str_nat n) \<le> length s"
      unfolding n by (intro str_nat_length int_of_digits_less) simp
    with len show ?thesis by simp
  qed
  then show ?thesis by (simp add: py_str_def)
qed

lemma py_int_str_nat:
  "length (str_nat n) \<le> max_str_digits \<Longrightarrow> py_int (str_nat n) = Inr n"
  by (simp add: py_int_def int_of_digits_str_nat)


subsection \<open>Strings of digits of any length\<close>

lemma ones_numeric: "0 < n \<Longrightarrow> is_numeric (replicate n 49)"
  using decimal_value_ascii [of 49]
  by (simp add: is_numeric_def list_all_iff isdecimal_def)

lemma ones_strip: "strip (replicate n 49) = replicate n 49"
  by (rule strip_stripped) (cases n, simp_all add: isspace_def)

lemma ones_then_text:
  assumes "0 < n" and "\<not> isspace (last (c # cs))"
  shows "strip (replicate n 49 @ c # cs) = replicate n 49 @ c # cs"
proof (rule strip_stripped)
  have "hd (replicate n 49 @ c # cs) = 49" using assms(1) by (cases n) simp_all
  then show "replicate n 49 @ c # cs = []
      \<or> (\<not> isspace (hd (replicate n 49 @ c # cs)) \<and> \<not> isspace (last (replicate n 49 @ c # cs)))"
    using assms(2) by (simp add: isspace_def)
qed

lemma strip_chars_free: "\<forall>c \<in> set s. \<not> q c \<Longrightarrow> strip_chars q s = s"
proof -
  assume free: "\<forall>c \<in> set s. \<not> q c"
  then have "dropWhile q s = s" by (cases s) simp_all
  moreover from free have "dropWhile q (rev s) = rev s" by (cases "rev s") (simp, force)
  ultimately show ?thesis by (simp add: strip_chars_def lstrip_chars_def rstrip_chars_def)
qed

section \<open>Loops that may raise\<close>

lemma for_each_append:
  "for_each body (xs @ ys) s =
     (case for_each body xs s of
        Inl err \<Rightarrow> Inl err
      | Inr s' \<Rightarrow> for_each body ys s')"
  by (induction xs arbitrary: s) (auto split: sum.splits)

lemma for_each_returns:
  "(\<And>x s. x \<in> set xs \<Longrightarrow> \<exists>s'. body x s = Inr s') \<Longrightarrow> \<exists>s'. for_each body xs s = Inr s'"
proof (induction xs arbitrary: s)
  case Nil
  then show ?case by simp
next
  case (Cons x xs)
  from Cons.prems [of x s] obtain s' where s': "body x s = Inr s'" by auto
  from Cons.IH [of s'] Cons.prems obtain s'' where "for_each body xs s' = Inr s''"
    by (metis list.set_intros(2))
  then show ?case using s' by simp
qed

lemma for_each_raises:
  assumes "x \<in> set xs"
    and "\<And>s. body x s = Inl err"
    and "\<And>y s. y \<in> set xs \<Longrightarrow> body y s = Inl err \<or> (\<exists>s'. body y s = Inr s')"
  shows "for_each body xs s = Inl err"
  using assms
proof (induction xs arbitrary: s)
  case Nil
  then show ?case by simp
next
  case (Cons y ys)
  show ?case
  proof (cases "body y s")
    case (Inl e)
    with Cons.prems(3) [of y s] show ?thesis by simp
  next
    case (Inr s')
    with Cons.prems(2) have "x \<noteq> y" by auto
    with Cons.prems(1) have "x \<in> set ys" by simp
    from Cons.IH [OF this Cons.prems(2)] Cons.prems(3) have "for_each body ys s' = Inl err"
      by (metis list.set_intros(2))
    then show ?thesis using Inr by simp
  qed
qed

lemma puts_append: "puts (xs @ ys) = puts xs @ puts ys"
  by (induction xs rule: puts.induct) simp_all

lemma puts_Put: "puts (map Put evs) = evs"
  by (induction evs) simp_all

lemma puts_Submit: "puts (map Submit bs) = []"
  by (induction bs) simp_all

lemma worker_queue:
  "translate_worker its model_id guide_prompt batch_size concurrency e =
     (let opening = opening_events (length its) model_id batch_size concurrency;
          pending = select_pending its in
      if pending = [] then opening @ [Log Msg_nothing_to_do, Done]
      else (case make_batches batch_size (sort_key index pending) of
              Inl x \<Rightarrow> opening @ [Error x]
            | Inr batches \<Rightarrow>
                opening @ [Log (Msg_total_batches (length batches))] @
                (if concurrency \<le> 0 then [Error Value_error_max_workers]
                 else fst (drain (length batches) concurrency 0
                             (as_completed e guide_prompt batches))
                      @ (case snd (drain (length batches) concurrency 0
                                     (as_completed e guide_prompt batches)) of
                           Some err \<Rightarrow> [Error err]
                         | None \<Rightarrow>
                             (if final_stop e then [Log Msg_stop_log, Status Msg_stopped]
                              else []) @ [Done]))))"
proof -
  have p: "puts (map Put xs @ acts) = xs @ puts acts" for xs acts
    by (simp add: puts_append puts_Put)
  have s: "puts (map Submit bs @ acts) = puts acts" for bs acts
    by (simp add: puts_append puts_Submit)
  show ?thesis
    unfolding translate_worker_def worker_actions_def Let_def
    by (simp add: puts_Put p s split_beta split: sum.splits)
qed

section \<open>Pending units and a run with nothing to do\<close>

lemma select_pending_empty:
  "(\<forall>it \<in> set its. \<not> list_all isspace (tr it)) \<Longrightarrow> select_pending its = []"
  by (simp add: select_pending_def strip_empty_iff filter_empty_conv)

text \<open>
  Claim C3, as amended. The pending units are exactly the units whose translation is empty
  or consists of whitespace only, in table order. When every unit has a translation that
  is not whitespace only, a run creates no batch and sends no request to the service; after
  the opening status and configuration log (and the warning about an image model, when it
  applies) it puts only the nothing-to-do log and the terminal done message on the queue.
  So a second run over a fully translated table issues no batch.
\<close>

theorem pending_selection_idempotent:
  "select_pending its = filter (\<lambda>it. list_all isspace (tr it)) its
   \<and> ((\<forall>it \<in> set its. \<not> list_all isspace (tr it)) \<longrightarrow>
         translate_worker its model_id guide_prompt batch_size concurrency e
           = opening_events (length its) model_id batch_size concurrency
               @ [Log Msg_nothing_to_do, Done]
       \<and> remote_requests its guide_prompt batch_size concurrency e = [])"
proof (intro conjI impI)
  show "select_pending its = filter (\<lambda>it. list_all isspace (tr it)) its"
    by (simp add: select_pending_def strip_empty_iff)
next
  assume full: "\<forall>it \<in> set its. \<not> list_all isspace (tr it)"
  then have p: "select_pending its = []" by (rule select_pending_empty)
  show "translate_worker its model_id guide_prompt batch_size concurrency e
           = opening_events (length its) model_id batch_size concurrency
               @ [Log Msg_nothing_to_do, Done]"
    by (simp add: worker_queue p)
  have "py_range 0 0 (nat batch_size) = []" by (simp add: py_range.simps)
  then show "remote_requests its guide_prompt batch_size concurrency e = []"
    by (simp add: remote_requests_def p make_batches_def)
qed

theorem pending_selection_idempotent_witness:
  "select_pending [\<lparr>index = 1, time = [], src = str_of ''Hi'', tr = str_of ''Chao''\<rparr>] = []
   \<and> translate_worker [\<lparr>index = 1, time = [], src = str_of ''Hi'', tr = str_of ''Chao''\<rparr>]
        (str_of ''gemini'') (str_of ''guide'') 100 3
        \<lparr>completion_order = [], worker_stop = (\<lambda>i. False), remote = (\<lambda>i g p. Content None),
         loop_stop = (\<lambda>k. False), final_stop = False\<rparr>
      = opening_events 1 (str_of ''gemini'') 100 3 @ [Log Msg_nothing_to_do, Done]
   \<and> remote_requests [\<lparr>index = 1, time = [], src = str_of ''Hi'', tr = str_of ''Chao''\<rparr>]
        (str_of ''guide'') 100 3
        \<lparr>completion_order = [], worker_stop = (\<lambda>i. False), remote = (\<lambda>i g p. Content None),
         loop_stop = (\<lambda>k. False), final_stop = False\<rparr> = []"
  using pending_selection_idempotent
    [of "[\<lparr>index = 1, time = [], src = str_of ''Hi'', tr = str_of ''Chao''\<rparr>]"
        "str_of ''gemini''" "str_of ''guide''" 100 3
        "\<lparr>completion_order = [], worker_stop = (\<lambda>i. False), remote = (\<lambda>i g p. Content None),
         loop_stop = (\<lambda>k. False), final_stop = False\<rparr>"]
  by (simp add: text_eval)

text \<open>
  The claim as stated has the run emit only the nothing-to-do log and the done message.
  On a fully translated table the queue also receives the opening status and log.
\<close>

theorem nothing_to_do_events_counterexample:
  "translate_worker [\<lparr>index = 1, time = [], src = str_of ''Hi'', tr = str_of ''Chao''\<rparr>]
        (str_of ''gemini'') (str_of ''guide'') 100 3
        \<lparr>completion_order = [], worker_stop = (\<lambda>i. False), remote = (\<lambda>i g p. Content None),
         loop_stop = (\<lambda>k. False), final_stop = False\<rparr>
     = [Status (Msg_start 1 100 3 (str_of ''gemini'')), Log (Msg_config (str_of ''gemini'') 1 100 3),
        Log Msg_nothing_to_do, Done]
   \<and> translate_worker [\<lparr>index = 1, time = [], src = str_of ''Hi'', tr = str_of ''Chao''\<rparr>]
        (str_of ''gemini'') (str_of ''guide'') 100 3
        \<lparr>completion_order = [], worker_stop = (\<lambda>i. False), remote = (\<lambda>i g p. Content None),
         loop_stop = (\<lambda>k. False), final_stop = False\<rparr>
     \<noteq> [Log Msg_nothing_to_do, Done]"
  by (simp add: worker_queue select_pending_def opening_events_def lower_def text_eval)

section \<open>The delimited-line grammar\<close>

lemma split_first_parts:
  assumes "d \<in> set s"
  shows "s = fst (split_first d s) @ d # snd (split_first d s)"
    and "d \<notin> set (fst (split_first d s))"
proof -
  from assms have ne: "dropWhile (\<lambda>c. c \<noteq> d) s \<noteq> []" by (simp add: dropWhile_eq_Nil_conv)
  then have "hd (dropWhile (\<lambda>c. c \<noteq> d) s) = d" using hd_dropWhile [of "\<lambda>c. c \<noteq> d" s] by simp
  with ne have "dropWhile (\<lambda>c. c \<noteq> d) s = d # tl (dropWhile (\<lambda>c. c \<noteq> d) s)"
    by (metis list.collapse)
  then have "s = takeWhile (\<lambda>c. c \<noteq> d) s @ d # tl (dropWhile (\<lambda>c. c \<noteq> d) s)"
    by (metis takeWhile_dropWhile_id)
  then show "s = fst (split_first d s) @ d # snd (split_first d s)"
    by (simp add: split_first_def)
  show "d \<notin> set (fst (split_first d s))"
    using set_takeWhileD [of d "\<lambda>c. c \<noteq> d" s] by (auto simp: split_first_def)
qed

text \<open>
  The unit of a line that is cut at \<open>d\<close>, the tab of a line with a tab or the comma of a
  line with a comma and no tab.
\<close>

lemma tsv_unit_cut:
  assumes "d \<in> set ln" and "d = TAB \<or> (d = COMMA \<and> TAB \<notin> set ln)"
  shows "tsv_unit c ln =
           (if is_numeric (strip (fst (split_first d ln)))
            then (case py_int (strip (fst (split_first d ln))) of
                    Inl err \<Rightarrow> Inl err
                  | Inr i \<Rightarrow> Inr \<lparr>index = i, time = [], src = strip (snd (split_first d ln)),
                                 tr = []\<rparr>)
            else Inr \<lparr>index = c, time = [], src = strip ln, tr = []\<rparr>)"
    and "left_field ln = Some (strip (fst (split_first d ln)))"
  using assms
  by (auto simp: tsv_unit_def left_field_def split_first_def Let_def
           split: prod.splits sum.splits)

lemma tsv_unit_single:
  assumes "TAB \<notin> set ln" and "COMMA \<notin> set ln"
  shows "tsv_unit c ln = Inr \<lparr>index = c, time = [], src = strip ln, tr = []\<rparr>"
    and "left_field ln = None"
  using assms by (simp_all add: tsv_unit_def left_field_def)

lemma tsv_unit_raises:
  assumes "left_field_too_long ln"
  shows "tsv_unit c ln = Inl Value_error_int_digits"
proof -
  from assms obtain l where l: "left_field ln = Some l" "is_numeric l" "max_str_digits < length l"
    by (auto simp: left_field_too_long_def split: option.splits)
  then have "TAB \<in> set ln \<or> (TAB \<notin> set ln \<and> COMMA \<in> set ln)"
    by (auto simp: left_field_def split: if_splits)
  then obtain d where d: "d \<in> set ln" "d = TAB \<or> (d = COMMA \<and> TAB \<notin> set ln)" by auto
  from tsv_unit_cut(2) [OF d] l(1) have "l = strip (fst (split_first d ln))" by simp
  then show ?thesis
    using tsv_unit_cut(1) [OF d, of c] l(2,3) by (simp add: py_int_long)
qed

lemma tsv_unit_returns:
  assumes "\<not> left_field_too_long ln"
  shows "\<exists>u. tsv_unit c ln = Inr u \<and> time u = [] \<and> tr u = []
           \<and> (TAB \<in> set ln \<longrightarrow>
                (\<exists>l r. ln = l @ TAB # r \<and> TAB \<notin> set l
                   \<and> (if is_numeric (strip l)
                       then py_int (strip l) = Inr (index u) \<and> src u = strip r
                       else index u = c \<and> src u = strip ln)))
           \<and> (TAB \<notin> set ln \<and> COMMA \<in> set ln \<longrightarrow>
                (\<exists>l r. ln = l @ COMMA # r \<and> COMMA \<notin> set l
                   \<and> (if is_numeric (strip l)
                       then py_int (strip l) = Inr (index u) \<and> src u = strip r
                       else index u = c \<and> src u = strip ln)))
           \<and> (TAB \<notin> set ln \<and> COMMA \<notin> set ln \<longrightarrow> index u = c \<and> src u = strip ln)"
proof -
  have cut: "\<exists>u. tsv_unit c ln = Inr u \<and> time u = [] \<and> tr u = []
               \<and> (\<exists>l r. ln = l @ d # r \<and> d \<notin> set l
                     \<and> (if is_numeric (strip l)
                         then py_int (strip l) = Inr (index u) \<and> src u = strip r
                         else index u = c \<and> src u = strip ln))"
    if d: "d \<in> set ln" "d = TAB \<or> (d = COMMA \<and> TAB \<notin> set ln)" for d
  proof -
    let ?l = "fst (split_first d ln)" and ?r = "snd (split_first d ln)"
    note parts = split_first_parts [OF d(1)]
    show ?thesis
    proof (cases "is_numeric (strip ?l)")
      case True
      with assms tsv_unit_cut(2) [OF d] have "length (strip ?l) \<le> max_str_digits"
        by (simp add: left_field_too_long_def)
      then have i: "py_int (strip ?l) = Inr (int_of_digits (strip ?l))" by (rule py_int_short)
      let ?u = "\<lparr>index = int_of_digits (strip ?l), time = [], src = strip ?r, tr = []\<rparr>"
      have "tsv_unit c ln = Inr ?u"
        using tsv_unit_cut(1) [OF d, of c] True i by simp
      moreover have "ln = ?l @ d # ?r \<and> d \<notin> set ?l
                     \<and> (if is_numeric (strip ?l)
                         then py_int (strip ?l) = Inr (index ?u) \<and> src ?u = strip ?r
                         else index ?u = c \<and> src ?u = strip ln)"
        using parts True i by simp
      moreover have "time ?u = [] \<and> tr ?u = []" by simp
      ultimately show ?thesis by blast
    next
      case False
      let ?u = "\<lparr>index = c, time = [], src = strip ln, tr = []\<rparr>"
      have "tsv_unit c ln = Inr ?u"
        using tsv_unit_cut(1) [OF d, of c] False by simp
      moreover have "ln = ?l @ d # ?r \<and> d \<notin> set ?l
                     \<and> (if is_numeric (strip ?l)
                         then py_int (strip ?l) = Inr (index ?u) \<and> src ?u = strip ?r
                         else index ?u = c \<and> src ?u = strip ln)"
        using parts False by simp
      moreover have "time ?u = [] \<and> tr ?u = []" by simp
      ultimately show ?thesis by blast
    qed
  qed
  show ?thesis
  proof (cases "TAB \<in> set ln")
    case True
    with cut [of TAB] show ?thesis by auto
  next
    case no_tab: False
    show ?thesis
    proof (cases "COMMA \<in> set ln")
      case True
      with cut [of COMMA] no_tab show ?thesis by auto
    next
      case False
      with no_tab tsv_unit_single(1) [of ln c] show ?thesis by simp
    qed
  qed
qed

lemma tsv_loop_returns:
  assumes "\<forall>ln \<in> set lines. \<not> left_field_too_long ln"
  shows "\<exists>us. for_each (\<lambda>ln st. parse_tsv_line st ln) lines (its, c)
                 = Inr (its @ us, c + length lines)
            \<and> length us = length lines
            \<and> (\<forall>k < length lines. tsv_unit (c + k) (lines ! k) = Inr (us ! k))"
  using assms
proof (induction lines arbitrary: its c)
  case Nil
  then show ?case by simp
next
  case (Cons ln lines)
  from Cons.prems have "\<not> left_field_too_long ln" by simp
  from tsv_unit_returns [OF this, of c] obtain u where u: "tsv_unit c ln = Inr u" by blast
  from Cons.prems have "\<forall>ln \<in> set lines. \<not> left_field_too_long ln" by simp
  from Cons.IH [OF this, of "its @ [u]" "Suc c"] obtain us
    where loop: "for_each (\<lambda>ln st. parse_tsv_line st ln) lines (its @ [u], Suc c)
                   = Inr ((its @ [u]) @ us, Suc c + length lines)"
      and len: "length us = length lines"
      and each: "\<forall>k < length lines. tsv_unit (Suc c + k) (lines ! k) = Inr (us ! k)"
    by blast
  have "for_each (\<lambda>ln st. parse_tsv_line st ln) (ln # lines) (its, c)
          = Inr (its @ u # us, c + length (ln # lines))"
    using u loop by (simp add: parse_tsv_line_def)
  moreover have "length (u # us) = length (ln # lines)" using len by simp
  moreover have "\<forall>k < length (ln # lines). tsv_unit (c + k) ((ln # lines) ! k) = Inr ((u # us) ! k)"
  proof (intro allI impI)
    fix k assume "k < length (ln # lines)"
    then show "tsv_unit (c + k) ((ln # lines) ! k) = Inr ((u # us) ! k)"
      using u each by (cases k) simp_all
  qed
  ultimately show ?case by blast
qed

lemma tsv_loop_raises:
  assumes "\<exists>ln \<in> set lines. left_field_too_long ln"
  shows "for_each (\<lambda>ln st. parse_tsv_line st ln) lines st = Inl Value_error_int_digits"
proof -
  from assms obtain ln where ln: "ln \<in> set lines" "left_field_too_long ln" by blast
  have bad: "parse_tsv_line s ln = Inl Value_error_int_digits" for s
    using tsv_unit_raises [OF ln(2)] by (simp add: parse_tsv_line_def)
  have any: "parse_tsv_line s y = Inl Value_error_int_digits \<or> (\<exists>s'. parse_tsv_line s y = Inr s')"
    for s y
  proof (cases "left_field_too_long y")
    case True
    then show ?thesis using tsv_unit_raises [of y] by (simp add: parse_tsv_line_def)
  next
    case False
    from tsv_unit_returns [OF this, of "snd s"] obtain u where "tsv_unit (snd s) y = Inr u"
      by blast
    then show ?thesis by (simp add: parse_tsv_line_def)
  qed
  show ?thesis
    by (rule for_each_raises [where body = "\<lambda>ln st. parse_tsv_line st ln", OF ln(1)])
      (use bad any in auto)
qed

lemma parse_tsv_like_loop:
  "parse_tsv_like text =
     (case for_each (\<lambda>ln st. parse_tsv_line st ln) (tsv_lines text) ([], 1) of
        Inl err \<Rightarrow> Inl err
      | Inr st \<Rightarrow> Inr (fst st))"
proof (cases "strip (normalize_newlines text) = []")
  case True
  then show ?thesis by (simp add: parse_tsv_like_def tsv_lines_def strip_Nil)
next
  case False
  then show ?thesis by (simp add: parse_tsv_like_def tsv_lines_def Let_def)
qed

text \<open>
  Claim C8. The lines of the tabular parser are the lines of the normalised text that are
  not blank. A line with a tab is cut at its first tab; a line without tab but with a
  comma at its first comma; any other line is a single field. The parser returns one unit
  per line, in order, unless the left field of some line that is cut is a string of more
  digits than \<open>int\<close> converts, in which case it raises. For the line at position \<open>k\<close> the
  counter is \<open>k + 1\<close>: it starts at one and grows by one after every line, also after a
  line that brought its own index. After a cut the unit is (integer of the left field,
  right field) if the left field, trimmed, is a non-empty string of digits; otherwise, and
  for a single field, the source is the whole line (trimmed) and the index is the counter.
  The text of two lines \<open>Hello\<close> and \<open>World\<close> gives the units (1, Hello) and (2, World).
\<close>

theorem tabular_grammar:
  "(if \<exists>ln \<in> set (tsv_lines text). left_field_too_long ln
    then parse_tsv_like text = Inl Value_error_int_digits
    else \<exists>units. parse_tsv_like text = Inr units
       \<and> length units = length (tsv_lines text)
       \<and> (\<forall>k < length (tsv_lines text).
            (let ln = tsv_lines text ! k; u = units ! k; counter = k + 1 in
               time u = [] \<and> tr u = []
             \<and> (TAB \<in> set ln \<longrightarrow>
                  (\<exists>l r. ln = l @ TAB # r \<and> TAB \<notin> set l
                     \<and> (if is_numeric (strip l)
                         then py_int (strip l) = Inr (index u) \<and> src u = strip r
                         else index u = counter \<and> src u = strip ln)))
             \<and> (TAB \<notin> set ln \<and> COMMA \<in> set ln \<longrightarrow>
                  (\<exists>l r. ln = l @ COMMA # r \<and> COMMA \<notin> set l
                     \<and> (if is_numeric (strip l)
                         then py_int (strip l) = Inr (index u) \<and> src u = strip r
                         else index u = counter \<and> src u = strip ln)))
             \<and> (TAB \<notin> set ln \<and> COMMA \<notin> set ln \<longrightarrow> index u = counter \<and> src u = strip ln))))
   \<and> parse_tsv_like (str_of ''Hello'' @ [NL] @ str_of ''World'')
       = Inr [\<lparr>index = 1, time = [], src = str_of ''Hello'', tr = []\<rparr>,
              \<lparr>index = 2, time = [], src = str_of ''World'', tr = []\<rparr>]"
proof (rule conjI)
  show "if \<exists>ln \<in> set (tsv_lines text). left_field_too_long ln
    then parse_tsv_like text = Inl Value_error_int_digits
    else \<exists>units. parse_tsv_like text = Inr units
       \<and> length units = length (tsv_lines text)
       \<and> (\<forall>k < length (tsv_lines text).
            (let ln = tsv_lines text ! k; u = units ! k; counter = k + 1 in
               time u = [] \<and> tr u = []
             \<and> (TAB \<in> set ln \<longrightarrow>
                  (\<exists>l r. ln = l @ TAB # r \<and> TAB \<notin> set l
                     \<and> (if is_numeric (strip l)
                         then py_int (strip l) = Inr (index u) \<and> src u = strip r
                         else index u = counter \<and> src u = strip ln)))
             \<and> (TAB \<notin> set ln \<and> COMMA \<in> set ln \<longrightarrow>
                  (\<exists>l r. ln = l @ COMMA # r \<and> COMMA \<notin> set l
                     \<and> (if is_numeric (strip l)
                         then py_int (strip l) = Inr (index u) \<and> src u = strip r
                         else index u = counter \<and> src u = strip ln)))
             \<and> (TAB \<notin> set ln \<and> COMMA \<notin> set ln \<longrightarrow> index u = counter \<and> src u = strip ln)))"
  proof (cases "\<exists>ln \<in> set (tsv_lines text). left_field_too_long ln")
    case True
    then show ?thesis
      by (simp only: if_True parse_tsv_like_loop tsv_loop_raises sum.case)
  next
    case False
    then have ok: "\<forall>ln \<in> set (tsv_lines text). \<not> left_field_too_long ln" by blast
    from tsv_loop_returns [OF ok, of "[]" 1] obtain us
      where loop: "for_each (\<lambda>ln st. parse_tsv_line st ln) (tsv_lines text) ([], 1)
                     = Inr ([] @ us, 1 + length (tsv_lines text))"
        and len: "length us = length (tsv_lines text)"
        and each: "\<forall>k < length (tsv_lines text). tsv_unit (1 + k) (tsv_lines text ! k) = Inr (us ! k)"
      by blast
    have res: "parse_tsv_like text = Inr us"
      unfolding parse_tsv_like_loop loop by simp
    have line: "let ln = tsv_lines text ! k; u = us ! k; counter = k + 1 in
               time u = [] \<and> tr u = []
             \<and> (TAB \<in> set ln \<longrightarrow>
                  (\<exists>l r. ln = l @ TAB # r \<and> TAB \<notin> set l
                     \<and> (if is_numeric (strip l)
                         then py_int (strip l) = Inr (index u) \<and> src u = strip r
                         else index u = counter \<and> src u = strip ln)))
             \<and> (TAB \<notin> set ln \<and> COMMA \<in> set ln \<longrightarrow>
                  (\<exists>l r. ln = l @ COMMA # r \<and> COMMA \<notin> set l
                     \<and> (if is_numeric (strip l)
                         then py_int (strip l) = Inr (index u) \<and> src u = strip r
                         else index u = counter \<and> src u = strip ln)))
             \<and> (TAB \<notin> set ln \<and> COMMA \<notin> set ln \<longrightarrow> index u = counter \<and> src u = strip ln)"
      if k: "k < length (tsv_lines text)" for k
    proof -
      from ok k have "\<not> left_field_too_long (tsv_lines text ! k)" by simp
      from tsv_unit_returns [OF this, of "k + 1"] each k show ?thesis
        unfolding Let_def by (simp add: add.commute)
    qed
    from False res len line show ?thesis
      by (simp only: if_False) blast
  qed
next
  show "parse_tsv_like (str_of ''Hello'' @ [NL] @ str_of ''World'')
       = Inr [\<lparr>index = 1, time = [], src = str_of ''Hello'', tr = []\<rparr>,
              \<lparr>index = 2, time = [], src = str_of ''World'', tr = []\<rparr>]"
    by (simp add: parse_tsv_like_def normalize_newlines_def replace1_def parse_tsv_line_def
          tsv_unit_def text_eval)
qed

text \<open>A line whose left field is a string of more digits than \<open>int\<close> converts.\<close>

lemma long_left_field:
  assumes "max_str_digits < n"
  shows "tsv_lines (replicate n 49 @ TAB # str_of ''x'') = [replicate n 49 @ TAB # str_of ''x'']"
    and "left_field_too_long (replicate n 49 @ TAB # str_of ''x'')"
proof -
  let ?s = "replicate n 49 :: str"
  let ?T = "?s @ TAB # str_of ''x''"
  from assms have n: "0 < n" by simp
  have cr: "CR \<notin> set ?T" and nl: "NL \<notin> set ?T" by (simp_all add: str_of_def)
  have st: "strip ?T = ?T"
    by (rule ones_then_text [OF n]) (simp add: isspace_def str_of_def)
  show "tsv_lines ?T = [?T]"
    unfolding tsv_lines_def normalize_newlines_id [OF cr] st split_on_free [OF nl]
    by (simp add: st)
  have "takeWhile (\<lambda>c. c \<noteq> TAB) ?T = ?s"
    by (simp add: takeWhile_tail)
  then have "left_field ?T = Some ?s"
    by (simp add: left_field_def ones_strip)
  then show "left_field_too_long ?T"
    using assms ones_numeric [OF n] by (simp add: left_field_too_long_def)
qed

lemmas digits_eval =
  is_numeric_def isdecimal_def decimal_value_def digit_zeros_def int_of_digits_def
  py_int_def max_str_digits_def

theorem tabular_grammar_witness:
  "tsv_lines (str_of ''7'' @ [TAB] @ str_of ''Hi'') = [str_of ''7'' @ [TAB] @ str_of ''Hi'']
   \<and> \<not> left_field_too_long (str_of ''7'' @ [TAB] @ str_of ''Hi'')
   \<and> (\<exists>units. parse_tsv_like (str_of ''7'' @ [TAB] @ str_of ''Hi'') = Inr units
         \<and> length units = 1 \<and> index (units ! 0) = 7 \<and> src (units ! 0) = str_of ''Hi'')
   \<and> left_field_too_long (replicate 4301 49 @ TAB # str_of ''x'')
   \<and> parse_tsv_like (replicate 4301 49 @ TAB # str_of ''x'') = Inl Value_error_int_digits"
proof -
  have n: "max_str_digits < 4301" by (simp add: max_str_digits_def)
  note long = long_left_field [OF n]
  have "\<exists>ln \<in> set (tsv_lines (replicate 4301 49 @ TAB # str_of ''x'')). left_field_too_long ln"
  proof (rule bexI)
    show "left_field_too_long (replicate 4301 49 @ TAB # str_of ''x'')" by (rule long(2))
    show "replicate 4301 49 @ TAB # str_of ''x''
            \<in> set (tsv_lines (replicate 4301 49 @ TAB # str_of ''x''))"
      by (simp only: long(1) list.set_intros)
  qed
  note raises = tabular_grammar [of "replicate 4301 49 @ TAB # str_of ''x''", THEN conjunct1,
      unfolded if_P [OF this]]
  let ?T = "str_of ''7'' @ [TAB] @ str_of ''Hi''"
  have ls: "tsv_lines ?T = [?T]"
    by (simp add: tsv_lines_def normalize_newlines_def replace1_def text_eval)
  have short: "\<not> left_field_too_long ?T"
    by (simp add: left_field_too_long_def left_field_def digits_eval text_eval)
  have ev: "parse_tsv_like ?T = Inr [\<lparr>index = 7, time = [], src = str_of ''Hi'', tr = []\<rparr>]"
    by (simp add: parse_tsv_like_def normalize_newlines_def replace1_def parse_tsv_line_def
          tsv_unit_def split_first_def digits_eval text_eval)
  have "\<not> (\<exists>ln \<in> set (tsv_lines ?T). left_field_too_long ln)"
    unfolding ls using short by simp
  with tabular_grammar [of ?T, THEN conjunct1]
  obtain units where "parse_tsv_like ?T = Inr units" "length units = length (tsv_lines ?T)"
    by (simp only: if_False) blast
  then have "parse_tsv_like ?T = Inr units \<and> length units = 1 \<and> index (units ! 0) = 7
               \<and> src (units ! 0) = str_of ''Hi''"
    unfolding ls using ev by auto
  then show ?thesis using ls short long(2) raises by blast
qed

section \<open>The decoder of replies\<close>

lemma parse_model_line_entry:
  "parse_model_line ln0 m =
     (if reply_index_too_long (strip ln0) then Inl Value_error_int_digits
      else Inr (case reply_entry (strip ln0) of
                  Some (i, t) \<Rightarrow> AList.update i t m
                | None \<Rightarrow> m))"
  by (auto simp: parse_model_line_def reply_entry_def reply_index_too_long_def
           match_reply_line_def py_int_def Let_def
           split: option.splits prod.splits list.splits)

lemma decode_step:
  assumes "for_each parse_model_line (ln # ls) m = Inr m'"
  shows "\<not> reply_index_too_long (strip ln)"
    and "for_each parse_model_line ls
           (case reply_entry (strip ln) of Some (i, t) \<Rightarrow> AList.update i t m | None \<Rightarrow> m)
         = Inr m'"
proof -
  show short: "\<not> reply_index_too_long (strip ln)"
  proof
    assume "reply_index_too_long (strip ln)"
    then have "parse_model_line ln m = Inl Value_error_int_digits"
      by (simp add: parse_model_line_entry)
    with assms show False by simp
  qed
  then have "parse_model_line ln m
               = Inr (case reply_entry (strip ln) of Some (i, t) \<Rightarrow> AList.update i t m | None \<Rightarrow> m)"
    by (simp add: parse_model_line_entry)
  with assms show "for_each parse_model_line ls
           (case reply_entry (strip ln) of Some (i, t) \<Rightarrow> AList.update i t m | None \<Rightarrow> m)
         = Inr m'"
    by simp
qed

lemma decode_keys:
  "for_each parse_model_line ls m = Inr m' \<Longrightarrow>
   fst ` set m'
     = fst ` set m \<union> {i. \<exists>ln \<in> set ls. \<exists>t. reply_entry (strip ln) = Some (i, t)}"
proof (induction ls arbitrary: m)
  case Nil
  then show ?case by simp
next
  case (Cons ln ls)
  note step = decode_step(2) [OF Cons.prems]
  show ?case
  proof (cases "reply_entry (strip ln)")
    case None
    with step have "for_each parse_model_line ls m = Inr m'" by simp
    from Cons.IH [OF this] None show ?thesis by simp
  next
    case (Some p)
    obtain i t where p: "p = (i, t)" by (cases p)
    with step Some have "for_each parse_model_line ls (AList.update i t m) = Inr m'" by simp
    from Cons.IH [OF this]
    have "fst ` set m'
            = insert i (fst ` set m) \<union> {i. \<exists>ln \<in> set ls. \<exists>t. reply_entry (strip ln) = Some (i, t)}"
      by (simp add: dom_update)
    then show ?thesis using Some p by auto
  qed
qed

lemma decode_distinct:
  "for_each parse_model_line ls m = Inr m' \<Longrightarrow> distinct (map fst m)
     \<Longrightarrow> distinct (map fst m')"
proof (induction ls arbitrary: m)
  case Nil
  then show ?case by simp
next
  case (Cons ln ls)
  note step = decode_step(2) [OF Cons.prems(1)]
  have "distinct (map fst (case reply_entry (strip ln) of
                             Some (i, t) \<Rightarrow> AList.update i t m | None \<Rightarrow> m))"
    using Cons.prems(2) by (simp add: distinct_update split: option.splits)
  from Cons.IH [OF step this] show ?case .
qed

lemma decode_untouched:
  "for_each parse_model_line ls m = Inr m' \<Longrightarrow>
   (\<forall>ln \<in> set ls. \<forall>t. reply_entry (strip ln) \<noteq> Some (i, t))
     \<Longrightarrow> map_of m' i = map_of m i"
proof (induction ls arbitrary: m)
  case Nil
  then show ?case by simp
next
  case (Cons ln ls)
  note step = decode_step(2) [OF Cons.prems(1)]
  have "map_of (case reply_entry (strip ln) of
                  Some (i, t) \<Rightarrow> AList.update i t m | None \<Rightarrow> m) i = map_of m i"
    using Cons.prems(2) by (auto simp: update_conv' split: option.splits)
  moreover from Cons.prems(2) have "\<forall>ln \<in> set ls. \<forall>t. reply_entry (strip ln) \<noteq> Some (i, t)"
    by simp
  ultimately show ?case using Cons.IH [OF step] by simp
qed

lemma decode_returns:
  assumes "\<forall>ln \<in> set ls. \<not> reply_index_too_long (strip ln)"
  shows "\<exists>m'. for_each parse_model_line ls m = Inr m'"
  by (rule for_each_returns) (use assms in \<open>simp add: parse_model_line_entry\<close>)

lemma decode_raises:
  assumes "\<exists>ln \<in> set ls. reply_index_too_long (strip ln)"
  shows "for_each parse_model_line ls m = Inl Value_error_int_digits"
proof -
  from assms obtain ln where ln: "ln \<in> set ls" "reply_index_too_long (strip ln)" by blast
  show ?thesis
    by (rule for_each_raises [OF ln(1)]) (use ln(2) in \<open>simp_all add: parse_model_line_entry\<close>)
qed

text \<open>
  Claim C10. The decoder returns a dictionary unless a line that matches the reply grammar
  carries an integer of more digits than \<open>int\<close> converts, in which case it raises. The
  keys of the dictionary are distinct, and they are exactly the integers of the lines that
  match the reply grammar. When several matching lines carry the same integer, the key is
  bound to the trimmed text of the last of them: a matching line for \<open>i\<close> that no later
  matching line for \<open>i\<close> follows decides the value of \<open>i\<close>, whatever the earlier lines
  said.
\<close>

theorem decode_last_line_wins:
  "if \<exists>ln \<in> set (reply_lines output). reply_index_too_long ln
   then parse_model_output output = Inl Value_error_int_digits
   else \<exists>m. parse_model_output output = Inr m
      \<and> distinct (map fst m)
      \<and> fst ` set m = {i. \<exists>ln \<in> set (reply_lines output). \<exists>t. reply_entry ln = Some (i, t)}
      \<and> (\<forall>k < length (reply_lines output). \<forall>i t.
            reply_entry (reply_lines output ! k) = Some (i, t)
            \<and> (\<forall>j. k < j \<and> j < length (reply_lines output)
                   \<longrightarrow> (\<forall>t'. reply_entry (reply_lines output ! j) \<noteq> Some (i, t')))
            \<longrightarrow> map_of m i = Some t)"
proof (cases "\<exists>ln \<in> set (reply_lines output). reply_index_too_long ln")
  case True
  then have "\<exists>ln \<in> set (split_on NL (strip (normalize_newlines output))).
               reply_index_too_long (strip ln)"
    by (simp add: reply_lines_def)
  then have "parse_model_output output = Inl Value_error_int_digits"
    unfolding parse_model_output_def by (rule decode_raises)
  with True show ?thesis by (simp only: if_True)
next
  case False
  define raw_lines where "raw_lines = split_on NL (strip (normalize_newlines output))"
  have lines: "reply_lines output = map strip raw_lines"
    by (simp add: reply_lines_def raw_lines_def)
  from False have "\<forall>ln \<in> set raw_lines. \<not> reply_index_too_long (strip ln)"
    by (simp add: lines)
  from decode_returns [OF this, of "[]"] obtain m
    where run: "for_each parse_model_line raw_lines [] = Inr m" by blast
  then have res: "parse_model_output output = Inr m"
    by (simp add: parse_model_output_def raw_lines_def)
  have dist: "distinct (map fst m)"
    using decode_distinct [OF run] by simp
  have keys: "fst ` set m = {i. \<exists>ln \<in> set (reply_lines output). \<exists>t. reply_entry ln = Some (i, t)}"
    using decode_keys [OF run] by (simp add: lines)
  have last: "map_of m i = Some t"
    if k: "k < length (reply_lines output)"
      and hit: "reply_entry (reply_lines output ! k) = Some (i, t)"
      and later: "\<forall>j. k < j \<and> j < length (reply_lines output)
                   \<longrightarrow> (\<forall>t'. reply_entry (reply_lines output ! j) \<noteq> Some (i, t'))"
    for k i t
  proof -
    from k have kl: "k < length raw_lines" by (simp add: lines)
    from hit kl have hit': "reply_entry (strip (raw_lines ! k)) = Some (i, t)"
      by (simp add: lines)
    have split: "raw_lines = take k raw_lines @ raw_lines ! k # drop (Suc k) raw_lines"
      using kl by (rule id_take_nth_drop)
    have quiet: "\<forall>ln \<in> set (drop (Suc k) raw_lines). \<forall>t'. reply_entry (strip ln) \<noteq> Some (i, t')"
    proof (intro ballI allI)
      fix ln t' assume "ln \<in> set (drop (Suc k) raw_lines)"
      then obtain j where "j < length (drop (Suc k) raw_lines)" "ln = drop (Suc k) raw_lines ! j"
        by (metis in_set_conv_nth)
      then have j: "Suc k + j < length raw_lines" "ln = raw_lines ! (Suc k + j)" by simp_all
      with later have "reply_entry (reply_lines output ! (Suc k + j)) \<noteq> Some (i, t')"
        by (simp add: lines)
      then show "reply_entry (strip ln) \<noteq> Some (i, t')" using j by (simp add: lines)
    qed
    from run have "for_each parse_model_line
                     (take k raw_lines @ raw_lines ! k # drop (Suc k) raw_lines) [] = Inr m"
      by (simp only: split [symmetric])
    then obtain m0 where m0: "for_each parse_model_line (take k raw_lines) [] = Inr m0"
      and rest: "for_each parse_model_line (raw_lines ! k # drop (Suc k) raw_lines) m0 = Inr m"
      by (auto simp: for_each_append split: sum.splits)
    from decode_step(2) [OF rest] hit'
    have tail: "for_each parse_model_line (drop (Suc k) raw_lines) (AList.update i t m0) = Inr m"
      by simp
    from decode_untouched [OF tail quiet]
    show "map_of m i = Some t" by (simp add: update_conv')
  qed
  from False res dist keys last show ?thesis
    by (simp only: if_False) blast
qed

text \<open>A reply line whose integer has more digits than \<open>int\<close> converts.\<close>

lemma long_reply_index:
  assumes "max_str_digits < n"
  shows "reply_lines (replicate n 49 @ str_of '': x'') = [replicate n 49 @ str_of '': x'']"
    and "reply_index_too_long (replicate n 49 @ str_of '': x'')"
proof -
  let ?s = "replicate n 49 :: str"
  let ?R = "?s @ str_of '': x''"
  from assms have n: "0 < n" by simp
  have cr: "CR \<notin> set ?R" and nl: "NL \<notin> set ?R" by (simp_all add: str_of_def)
  have "strip (?s @ COLON # str_of '' x'') = ?s @ COLON # str_of '' x''"
    by (rule ones_then_text [OF n]) (simp add: isspace_def str_of_def)
  then have st: "strip ?R = ?R" by (simp add: str_of_def)
  show "reply_lines ?R = [?R]"
    unfolding reply_lines_def normalize_newlines_id [OF cr] st split_on_free [OF nl]
    by (simp add: st)
  have d: "isdecimal 49"
    using decimal_value_ascii [of 49] by (simp add: isdecimal_def)
  have "takeWhile isdecimal ?R = ?s" "dropWhile isdecimal ?R = str_of '': x''"
    using d colon_class(2) by (simp_all add: str_of_def takeWhile_tail dropWhile_append3)
  then have "\<exists>g2. match_reply_line ?R = Some (?s, g2)"
    using n colon_class(1) by (simp add: match_reply_line_def str_of_def)
  then show "reply_index_too_long ?R"
    using assms by (auto simp: reply_index_too_long_def)
qed

lemmas codec_eval =
  normalize_newlines_def replace1_def match_reply_line_def reply_entry_def
  reply_index_too_long_def isdecimal_def decimal_value_def digit_zeros_def
  int_of_digits_def py_int_def max_str_digits_def

theorem decode_last_line_wins_witness:
  "reply_lines (str_of ''7: a'' @ NL # str_of ''07 : b'') = [str_of ''7: a'', str_of ''07 : b'']
   \<and> reply_entry (str_of ''7: a'') = Some (7, str_of ''a'')
   \<and> reply_entry (str_of ''07 : b'') = Some (7, str_of ''b'')
   \<and> (\<exists>m. parse_model_output (str_of ''7: a'' @ NL # str_of ''07 : b'') = Inr m
         \<and> map_of m 7 = Some (str_of ''b''))
   \<and> reply_index_too_long (replicate 4301 49 @ str_of '': x'')
   \<and> parse_model_output (replicate 4301 49 @ str_of '': x'') = Inl Value_error_int_digits"
proof -
  have n: "max_str_digits < 4301" by (simp add: max_str_digits_def)
  note long = long_reply_index [OF n]
  have "\<exists>ln \<in> set (reply_lines (replicate 4301 49 @ str_of '': x'')). reply_index_too_long ln"
  proof (rule bexI)
    show "reply_index_too_long (replicate 4301 49 @ str_of '': x'')" by (rule long(2))
    show "replicate 4301 49 @ str_of '': x''
            \<in> set (reply_lines (replicate 4301 49 @ str_of '': x''))"
      by (simp only: long(1) list.set_intros)
  qed
  note raises = decode_last_line_wins [of "replicate 4301 49 @ str_of '': x''",
      unfolded if_P [OF this]]
  let ?R = "str_of ''7: a'' @ NL # str_of ''07 : b''"
  have ls: "reply_lines ?R = [str_of ''7: a'', str_of ''07 : b'']"
    by (simp add: reply_lines_def normalize_newlines_def replace1_def text_eval)
  have e0: "reply_entry (str_of ''7: a'') = Some (7, str_of ''a'')"
    by (simp add: codec_eval text_eval)
  have e1: "reply_entry (str_of ''07 : b'') = Some (7, str_of ''b'')"
    by (simp add: codec_eval text_eval)
  have short: "\<not> (\<exists>ln \<in> set (reply_lines ?R). reply_index_too_long ln)"
    unfolding ls by (simp add: codec_eval text_eval)
  with decode_last_line_wins [of ?R] obtain m
    where m: "parse_model_output ?R = Inr m"
      and last: "\<forall>k < length (reply_lines ?R). \<forall>i t.
            reply_entry (reply_lines ?R ! k) = Some (i, t)
            \<and> (\<forall>j. k < j \<and> j < length (reply_lines ?R)
                   \<longrightarrow> (\<forall>t'. reply_entry (reply_lines ?R ! j) \<noteq> Some (i, t')))
            \<longrightarrow> map_of m i = Some t"
    by (simp only: if_False) blast
  have "map_of m 7 = Some (str_of ''b'')"
    by (rule last [rule_format, of 1 7 "str_of ''b''"]) (simp_all add: ls e1)
  with m ls e0 e1 long(2) raises show ?thesis by blast
qed

section \<open>Merging into the unit table\<close>

lemma idx_to_item_Some:
  assumes "idx_to_item its i = Some p"
  shows "p < length its \<and> index (its ! p) = i"
proof -
  from assms have "(i, p) \<in> set (zip (map index its) [0..<length its])"
    unfolding idx_to_item_def by (metis map_of_SomeD set_rev)
  then obtain k where "k < length its" "(map index its) ! k = i" "[0..<length its] ! k = p"
    by (auto simp: set_zip)
  then show ?thesis by simp
qed

lemma merge_entry_indices:
  "map index (merge_entry lookup x acc) = map index acc"
proof (cases "lookup (fst x)")
  case None
  then show ?thesis by (simp add: merge_entry_def)
next
  case (Some p)
  show ?thesis
  proof (cases "p < length acc")
    case True
    then have "(map index acc)[p := index (acc ! p)] = map index acc"
      by (metis length_map list_update_id nth_map)
    then show ?thesis using Some by (simp add: merge_entry_def map_update)
  next
    case False
    then have "acc[p := (acc ! p)\<lparr>tr := snd x\<rparr>] = acc" by (simp add: list_update_beyond)
    then show ?thesis using Some by (simp add: merge_entry_def)
  qed
qed

lemma fold_merge_indices:
  "map index (fold (merge_entry lookup) m acc) = map index acc"
  by (induction m arbitrary: acc) (simp_all add: merge_entry_indices)

lemma idx_to_item_cong:
  "map index xs = map index ys \<Longrightarrow> idx_to_item xs = idx_to_item ys"
  by (metis idx_to_item_def length_map)

lemma idx_to_item_apply:
  "idx_to_item (apply_translation_mapping m its) = idx_to_item its"
  by (rule idx_to_item_cong) (simp add: apply_translation_mapping_def fold_merge_indices)

lemma merge_entry_commute:
  assumes "fst x \<noteq> fst y"
  shows "merge_entry (idx_to_item its) x (merge_entry (idx_to_item its) y acc)
       = merge_entry (idx_to_item its) y (merge_entry (idx_to_item its) x acc)"
proof (cases "idx_to_item its (fst x)")
  case None
  then show ?thesis by (simp add: merge_entry_def)
next
  case px: (Some p)
  show ?thesis
  proof (cases "idx_to_item its (fst y)")
    case None
    then show ?thesis by (simp add: merge_entry_def)
  next
    case py: (Some q)
    from idx_to_item_Some [OF px] idx_to_item_Some [OF py] assms have "p \<noteq> q" by auto
    then show ?thesis using px py by (simp add: merge_entry_def list_update_swap)
  qed
qed

lemma apply_commute:
  assumes "fst ` set m1 \<inter> fst ` set m2 = {}"
  shows "apply_translation_mapping m1 (apply_translation_mapping m2 its)
       = apply_translation_mapping m2 (apply_translation_mapping m1 its)"
proof -
  let ?g = "merge_entry (idx_to_item its)"
  have step: "?g x \<circ> ?g y = ?g y \<circ> ?g x" if "x \<in> set m1" "y \<in> set m2" for x y
  proof -
    from that assms have "fst x \<noteq> fst y" by auto
    then show ?thesis
      by (intro ext) (simp add: merge_entry_commute [of x y])
  qed
  have one: "?g y \<circ> fold ?g m1 = fold ?g m1 \<circ> ?g y" if "y \<in> set m2" for y
  proof (rule fold_commute)
    fix x assume "x \<in> set m1"
    then show "?g y \<circ> ?g x = ?g x \<circ> ?g y" using step [of x y] that by simp
  qed
  have "fold ?g m1 \<circ> fold ?g m2 = fold ?g m2 \<circ> fold ?g m1"
  proof (rule fold_commute)
    fix y assume "y \<in> set m2"
    then show "fold ?g m1 \<circ> ?g y = ?g y \<circ> fold ?g m1" using one [of y] by simp
  qed
  then have "fold ?g m1 (fold ?g m2 its) = fold ?g m2 (fold ?g m1 its)"
    by (simp add: fun_eq_iff)
  moreover have "idx_to_item (fold ?g m2 its) = idx_to_item its"
    using idx_to_item_apply [of m2 its] by (simp add: apply_translation_mapping_def)
  moreover have "idx_to_item (fold ?g m1 its) = idx_to_item its"
    using idx_to_item_apply [of m1 its] by (simp add: apply_translation_mapping_def)
  ultimately show ?thesis by (simp add: apply_translation_mapping_def)
qed

text \<open>
  Claim C7. Take any unit table and any list of dictionaries of which no two (at different
  places of the list) share an index key. Applying the dictionaries to the table one after
  the other gives the same table, with the same translation for every unit, in whatever
  order they are applied.
\<close>

theorem merge_order_independent:
  assumes disjoint: "\<forall>i < length ms. \<forall>j < length ms.
                       i \<noteq> j \<longrightarrow> fst ` set (ms ! i) \<inter> fst ` set (ms ! j) = {}"
    and perm: "mset ms' = mset ms"
  shows "fold apply_translation_mapping ms' its = fold apply_translation_mapping ms its"
proof -
  have "apply_translation_mapping x \<circ> apply_translation_mapping y
        = apply_translation_mapping y \<circ> apply_translation_mapping x"
    if "x \<in> set ms" "y \<in> set ms" for x y
  proof (cases "x = y")
    case True
    then show ?thesis by simp
  next
    case False
    from that obtain i j where ij: "i < length ms" "j < length ms" "ms ! i = x" "ms ! j = y"
      by (metis in_set_conv_nth)
    with False have "i \<noteq> j" by auto
    with disjoint ij have "fst ` set x \<inter> fst ` set y = {}" by blast
    then show ?thesis
      by (intro ext) (simp add: apply_commute [of x y])
  qed
  then have "fold apply_translation_mapping ms = fold apply_translation_mapping ms'"
    using perm by (intro fold_multiset_equiv) simp_all
  then show ?thesis by simp
qed

theorem merge_order_independent_witness:
  "fold apply_translation_mapping [[(2, str_of ''hai'')], [(1, str_of ''mot'')]]
     [\<lparr>index = 1, time = [], src = str_of ''one'', tr = []\<rparr>,
      \<lparr>index = 2, time = [], src = str_of ''two'', tr = []\<rparr>]
   = fold apply_translation_mapping [[(1, str_of ''mot'')], [(2, str_of ''hai'')]]
     [\<lparr>index = 1, time = [], src = str_of ''one'', tr = []\<rparr>,
      \<lparr>index = 2, time = [], src = str_of ''two'', tr = []\<rparr>]
   \<and> fold apply_translation_mapping [[(1, str_of ''mot'')], [(2, str_of ''hai'')]]
     [\<lparr>index = 1, time = [], src = str_of ''one'', tr = []\<rparr>,
      \<lparr>index = 2, time = [], src = str_of ''two'', tr = []\<rparr>]
   = [\<lparr>index = 1, time = [], src = str_of ''one'', tr = str_of ''mot''\<rparr>,
      \<lparr>index = 2, time = [], src = str_of ''two'', tr = str_of ''hai''\<rparr>]"
proof -
  let ?ms = "[[(1::nat, str_of ''mot'')], [(2, str_of ''hai'')]]"
  have d: "\<forall>i < length ?ms. \<forall>j < length ?ms.
             i \<noteq> j \<longrightarrow> fst ` set (?ms ! i) \<inter> fst ` set (?ms ! j) = {}"
    by (auto simp: less_Suc_eq nth_Cons')
  have p: "mset [[(2::nat, str_of ''hai'')], [(1, str_of ''mot'')]] = mset ?ms"
    by simp
  have ev: "fold apply_translation_mapping ?ms
     [\<lparr>index = 1, time = [], src = str_of ''one'', tr = []\<rparr>,
      \<lparr>index = 2, time = [], src = str_of ''two'', tr = []\<rparr>]
   = [\<lparr>index = 1, time = [], src = str_of ''one'', tr = str_of ''mot''\<rparr>,
      \<lparr>index = 2, time = [], src = str_of ''two'', tr = str_of ''hai''\<rparr>]"
    by (simp add: apply_translation_mapping_def merge_entry_def idx_to_item_def)
  from merge_order_independent [OF d p] ev show ?thesis by simp
qed

section \<open>The run of the worker\<close>

lemma updates_of_append: "updates_of (xs @ ys) = updates_of xs @ updates_of ys"
  by (induction xs rule: updates_of.induct) simp_all

lemma poll_queue_items:
  "items (poll_queue evs st) = fold apply_translation_mapping (updates_of evs) (items st)"
  unfolding poll_queue_def
proof (induction evs arbitrary: st)
  case Nil
  then show ?case by simp
next
  case (Cons ev evs)
  show ?case by (cases ev) (simp_all add: Cons.IH)
qed

lemma poll_queue_append: "poll_queue (xs @ ys) st = poll_queue ys (poll_queue xs st)"
  by (simp add: poll_queue_def)

lemma drain_no_terminal: "list_all (\<lambda>ev. \<not> is_terminal ev) (fst (drain t c n fs))"
proof (induction fs arbitrary: n)
  case Nil
  then show ?case by simp
next
  case (Cons f fs)
  obtain stop_set fut where f: "f = (stop_set, fut)" by (cases f)
  show ?case
  proof (cases fut)
    case (Inl x)
    with f show ?thesis by simp
  next
    case (Inr res)
    with f Cons.IH show ?thesis
      by (simp add: Let_def split_beta split: option.splits)
  qed
qed

lemma drain_outcome:
  "updates_of (fst (drain t c n fs)) = merged_of (takeWhile passes fs)
   \<and> (snd (drain t c n fs) = None \<longleftrightarrow> list_all passes fs)"
proof (induction fs arbitrary: n)
  case Nil
  then show ?case by simp
next
  case (Cons f fs)
  obtain stop_set fut where f: "f = (stop_set, fut)" by (cases f)
  show ?case
  proof (cases fut)
    case (Inl x)
    with f show ?thesis by simp
  next
    case (Inr res)
    show ?thesis
    proof (cases "skipped res")
      case True
      with Cons.IH [of n] f Inr show ?thesis
        by (simp add: split_beta updates_of_append)
    next
      case False
      show ?thesis
      proof (cases "mapping res = []")
        case True
        with False f Inr show ?thesis by (simp add: updates_of_append)
      next
        case m: False
        with False Cons.IH [of "Suc n"] f Inr show ?thesis
          by (simp add: split_beta Let_def updates_of_append split: option.splits)
      qed
    qed
  qed
qed

lemma drain_passes:
  assumes "list_all passes pre"
  shows "drain t c n (pre @ rest) =
           (fst (drain t c n pre) @ fst (drain t c (n + length (merged_of pre)) rest),
            snd (drain t c (n + length (merged_of pre)) rest))
         \<and> updates_of (fst (drain t c n pre)) = merged_of pre"
  using assms
proof (induction pre arbitrary: n)
  case Nil
  then show ?case by simp
next
  case (Cons f pre)
  obtain stop_set fut where f: "f = (stop_set, fut)" by (cases f)
  from Cons.prems f obtain res where fut: "fut = Inr res" and ok: "skipped res \<or> mapping res \<noteq> []"
    by (cases fut) auto
  from Cons.prems have pre: "list_all passes pre" by simp
  show ?case
  proof (cases "skipped res")
    case True
    with Cons.IH [OF pre, of n] f fut show ?thesis
      by (simp add: split_beta updates_of_append)
  next
    case False
    with ok have m: "mapping res \<noteq> []" by simp
    with False Cons.IH [OF pre, of "Suc n"] f fut show ?thesis
      by (simp add: split_beta Let_def updates_of_append split: option.splits)
  qed
qed

lemma opening_no_terminal:
  "list_all (\<lambda>ev. \<not> is_terminal ev) (opening_events n model_id batch_size concurrency)"
  by (simp add: opening_events_def)

lemma no_terminal_filter:
  "list_all (\<lambda>ev. \<not> is_terminal ev) evs \<Longrightarrow> filter is_terminal evs = []"
  by (simp add: list_all_iff filter_empty_conv)

lemma worker_run:
  assumes pend: "select_pending its \<noteq> []"
    and bat: "make_batches batch_size (sort_key index (select_pending its)) = Inr batches"
    and conc: "0 < concurrency"
  shows "translate_worker its model_id guide_prompt batch_size concurrency e
           = opening_events (length its) model_id batch_size concurrency
             @ [Log (Msg_total_batches (length batches))]
             @ fst (drain (length batches) concurrency 0 (as_completed e guide_prompt batches))
             @ (case snd (drain (length batches) concurrency 0
                            (as_completed e guide_prompt batches)) of
                  Some err \<Rightarrow> [Error err]
                | None \<Rightarrow> (if final_stop e then [Log Msg_stop_log, Status Msg_stopped] else [])
                          @ [Done])"
  using pend bat conc by (simp add: worker_queue)

lemma worker_updates:
  assumes pend: "select_pending its \<noteq> []"
    and bat: "make_batches batch_size (sort_key index (select_pending its)) = Inr batches"
    and conc: "0 < concurrency"
  shows "updates_of (translate_worker its model_id guide_prompt batch_size concurrency e)
           = merged_of (takeWhile passes (as_completed e guide_prompt batches))"
proof -
  have "updates_of (opening_events (length its) model_id batch_size concurrency) = []"
    by (simp add: opening_events_def)
  then show ?thesis
    unfolding worker_run [OF pend bat conc]
    using drain_outcome [of "length batches" concurrency 0 "as_completed e guide_prompt batches"]
    by (simp add: updates_of_append split: option.splits)
qed

lemma worker_shape:
  "\<exists>body final.
      translate_worker its model_id guide_prompt batch_size concurrency e = body @ [final]
    \<and> list_all (\<lambda>ev. \<not> is_terminal ev) body
    \<and> (final = Done \<or> (\<exists>x. final = Error x))"
proof -
  let ?open = "opening_events (length its) model_id batch_size concurrency"
  let ?W = "translate_worker its model_id guide_prompt batch_size concurrency e"
  note o = opening_no_terminal [of "length its" model_id batch_size concurrency]
  show ?thesis
  proof (cases "select_pending its = []")
    case True
    then have "?W = (?open @ [Log Msg_nothing_to_do]) @ [Done]"
      by (simp add: worker_queue)
    moreover have "list_all (\<lambda>ev. \<not> is_terminal ev) (?open @ [Log Msg_nothing_to_do])"
      using o by simp
    ultimately show ?thesis by blast
  next
    case pend: False
    show ?thesis
    proof (cases "make_batches batch_size (sort_key index (select_pending its))")
      case (Inl x)
      then have "?W = ?open @ [Error x]" using pend by (simp add: worker_queue)
      then show ?thesis using o by blast
    next
      case (Inr batches)
      let ?head = "?open @ [Log (Msg_total_batches (length batches))]"
      have h: "list_all (\<lambda>ev. \<not> is_terminal ev) ?head" using o by simp
      show ?thesis
      proof (cases "concurrency \<le> 0")
        case True
        then have "?W = ?head @ [Error Value_error_max_workers]"
          using pend Inr by (simp add: worker_queue)
        then show ?thesis using h by blast
      next
        case False
        obtain evs x where d: "drain (length batches) concurrency 0
                                 (as_completed e guide_prompt batches) = (evs, x)"
          by (cases "drain (length batches) concurrency 0 (as_completed e guide_prompt batches)")
        have evs: "list_all (\<lambda>ev. \<not> is_terminal ev) evs"
          using drain_no_terminal [of "length batches" concurrency 0
                  "as_completed e guide_prompt batches"] d by simp
        show ?thesis
        proof (cases x)
          case (Some err)
          then have "?W = (?head @ evs) @ [Error err]"
            using pend Inr False d by (simp add: worker_queue)
          moreover have "list_all (\<lambda>ev. \<not> is_terminal ev) (?head @ evs)" using h evs by simp
          ultimately show ?thesis by blast
        next
          case None
          let ?stop = "if final_stop e then [Log Msg_stop_log, Status Msg_stopped] else []"
          from None have "?W = (?head @ evs @ ?stop) @ [Done]"
            using pend Inr False d by (simp add: worker_queue)
          moreover have "list_all (\<lambda>ev. \<not> is_terminal ev) (?head @ evs @ ?stop)"
            using h evs by simp
          ultimately show ?thesis by blast
        qed
      qed
    qed
  qed
qed

lemma drain_cut:
  "drain t c n fs = drain t c n (takeWhile passes fs @ take 1 (dropWhile passes fs))"
proof (induction fs arbitrary: n)
  case Nil
  then show ?case by simp
next
  case (Cons f fs)
  obtain stop_set fut where f: "f = (stop_set, fut)" by (cases f)
  show ?case
  proof (cases fut)
    case (Inl x)
    with f show ?thesis by simp
  next
    case (Inr res)
    show ?thesis
    proof (cases "skipped res")
      case True
      with Cons.IH [of n] f Inr show ?thesis by simp
    next
      case False
      show ?thesis
      proof (cases "mapping res = []")
        case True
        with False f Inr show ?thesis by simp
      next
        case m: False
        with False Cons.IH [of "Suc n"] f Inr show ?thesis by simp
      qed
    qed
  qed
qed

lemma worker_actions_run:
  assumes pend: "select_pending its \<noteq> []"
    and bat: "make_batches batch_size (sort_key index (select_pending its)) = Inr batches"
    and conc: "0 < concurrency"
  shows "worker_actions its model_id guide_prompt batch_size concurrency e
           = map Put (opening_events (length its) model_id batch_size concurrency
                      @ [Log (Msg_total_batches (length batches))])
             @ map Submit batches
             @ map Put (fst (drain (length batches) concurrency 0
                               (as_completed e guide_prompt batches))
                        @ (case snd (drain (length batches) concurrency 0
                                       (as_completed e guide_prompt batches)) of
                             Some err \<Rightarrow> [Error err]
                           | None \<Rightarrow>
                               (if final_stop e then [Log Msg_stop_log, Status Msg_stopped]
                                else []) @ [Done]))"
  using pend bat conc by (simp add: worker_actions_def split_beta)

lemma requests_of_run:
  assumes bat: "make_batches batch_size (sort_key index (select_pending its)) = Inr batches"
    and conc: "0 < concurrency"
    and i: "i < length batches" "\<not> worker_stop e i"
    and p: "build_user_payload (batches ! i) guide_prompt = Inr p"
  shows "(guide_prompt, p) \<in> set (remote_requests its guide_prompt batch_size concurrency e)"
proof -
  from i have "i \<in> set (filter (\<lambda>i. \<not> worker_stop e i) [0..<length batches])" by simp
  then show ?thesis
    using bat conc p by (auto simp: remote_requests_def intro!: bexI [of _ i])
qed

text \<open>
  Claim C2, as amended. Take a run with pending units, a valid batch size and pool size,
  and among its completed futures a result that is not skipped and whose mapping is empty.
  The run ends with an error message and never puts done on the queue. The loop reads no
  future after the first one that does not pass (a future passes when it holds a result
  that is skipped or has a mapping that is not empty): the queue is that of the futures up
  to and including that one, the updates on it are exactly the mappings of the futures
  before it, and the unit table after the run is the table with those merges applied,
  nothing added and nothing taken back. Every batch is handed to the pool before the loop
  starts and none afterwards; a batch whose worker finds the stop flag clear sends its
  request to the service whenever the pool runs it, also after the failure. When the
  futures before the result with the empty mapping all pass, that result is the one that
  ends the run: the queue then ends with the log of the bad format, the log of the raw
  reply of that batch, and the error.
\<close>

theorem fatal_on_empty_mapping:
  assumes pend: "select_pending its \<noteq> []"
    and bat: "make_batches batch_size (sort_key index (select_pending its)) = Inr batches"
    and conc: "0 < concurrency"
    and order: "as_completed e guide_prompt batches = pre @ (stop_set, Inr res) # post"
    and fail: "\<not> skipped res \<and> mapping res = []"
  shows "Done \<notin> set (translate_worker its model_id guide_prompt batch_size concurrency e)
       \<and> (\<exists>x. filter is_terminal
                 (translate_worker its model_id guide_prompt batch_size concurrency e)
               = [Error x]
             \<and> translate_worker its model_id guide_prompt batch_size concurrency e
               = opening_events (length its) model_id batch_size concurrency
                 @ [Log (Msg_total_batches (length batches))]
                 @ fst (drain (length batches) concurrency 0
                          (takeWhile passes (as_completed e guide_prompt batches)
                           @ take 1 (dropWhile passes (as_completed e guide_prompt batches))))
                 @ [Error x])
       \<and> updates_of (translate_worker its model_id guide_prompt batch_size concurrency e)
           = merged_of (takeWhile passes pre)
       \<and> items (poll_queue (translate_worker its model_id guide_prompt batch_size concurrency e) st)
           = fold apply_translation_mapping (merged_of (takeWhile passes pre)) (items st)
       \<and> (\<exists>loop_events.
             worker_actions its model_id guide_prompt batch_size concurrency e
               = map Put (opening_events (length its) model_id batch_size concurrency
                          @ [Log (Msg_total_batches (length batches))])
                 @ map Submit batches @ map Put loop_events)
       \<and> (\<forall>i < length batches. \<forall>p.
             \<not> worker_stop e i \<and> build_user_payload (batches ! i) guide_prompt = Inr p
             \<longrightarrow> (guide_prompt, p)
                   \<in> set (remote_requests its guide_prompt batch_size concurrency e))
       \<and> (list_all passes pre \<longrightarrow>
            translate_worker its model_id guide_prompt batch_size concurrency e
              = opening_events (length its) model_id batch_size concurrency
                @ [Log (Msg_total_batches (length batches))]
                @ fst (drain (length batches) concurrency 0 pre)
                @ (if stop_set then [Status Msg_stopping] else [])
                @ [Log (Msg_bad_format (rng res)),
                   Log (Msg_raw (case raw res of None \<Rightarrow> [] | Some s \<Rightarrow> s)),
                   Error Runtime_error_unparsable]
          \<and> updates_of (translate_worker its model_id guide_prompt batch_size concurrency e)
              = merged_of pre)"
proof -
  let ?W = "translate_worker its model_id guide_prompt batch_size concurrency e"
  let ?open = "opening_events (length its) model_id batch_size concurrency"
  let ?n = "length batches"
  let ?fs = "as_completed e guide_prompt batches"
  let ?D = "drain ?n concurrency 0 ?fs"
  note W = worker_run [OF pend bat conc, of model_id guide_prompt e]
  have bad: "\<not> passes (stop_set, Inr res)" using fail by simp
  then have "\<not> list_all passes ?fs" unfolding order by simp
  then obtain err where err: "snd ?D = Some err"
    using drain_outcome [of ?n concurrency 0 ?fs] by auto
  have W': "?W = (?open @ [Log (Msg_total_batches ?n)] @ fst ?D) @ [Error err]"
    unfolding W err by simp
  have quiet: "list_all (\<lambda>ev. \<not> is_terminal ev) (?open @ [Log (Msg_total_batches ?n)] @ fst ?D)"
    using opening_no_terminal [of "length its" model_id batch_size concurrency]
      drain_no_terminal [of ?n concurrency 0 ?fs] by simp
  have "Done \<notin> set (?open @ [Log (Msg_total_batches ?n)] @ fst ?D)"
  proof
    assume "Done \<in> set (?open @ [Log (Msg_total_batches ?n)] @ fst ?D)"
    with quiet have "\<not> is_terminal Done" unfolding list_all_iff by blast
    then show False by simp
  qed
  then have no_done: "Done \<notin> set ?W" unfolding W' by simp
  have fin: "filter is_terminal ?W = [Error err]"
    unfolding W' using no_terminal_filter [OF quiet] by simp
  have "fst ?D = fst (drain ?n concurrency 0
                        (takeWhile passes ?fs @ take 1 (dropWhile passes ?fs)))"
    by (rule arg_cong [OF drain_cut])
  then have cut: "?W = ?open @ [Log (Msg_total_batches ?n)]
                    @ fst (drain ?n concurrency 0
                             (takeWhile passes ?fs @ take 1 (dropWhile passes ?fs)))
                    @ [Error err]"
    using W' by simp
  have tw: "takeWhile passes ?fs = takeWhile passes pre"
    unfolding order using bad by (simp add: takeWhile_tail)
  have ups: "updates_of ?W = merged_of (takeWhile passes pre)"
    using worker_updates [OF pend bat conc, of model_id guide_prompt e] by (simp only: tw)
  have tab: "items (poll_queue ?W st)
               = fold apply_translation_mapping (merged_of (takeWhile passes pre)) (items st)"
    by (simp only: poll_queue_items ups)
  have acts: "\<exists>loop_events.
             worker_actions its model_id guide_prompt batch_size concurrency e
               = map Put (?open @ [Log (Msg_total_batches ?n)])
                 @ map Submit batches @ map Put loop_events"
    using worker_actions_run [OF pend bat conc, of model_id guide_prompt e] by blast
  have reqs: "\<forall>i < length batches. \<forall>p.
             \<not> worker_stop e i \<and> build_user_payload (batches ! i) guide_prompt = Inr p
             \<longrightarrow> (guide_prompt, p)
                   \<in> set (remote_requests its guide_prompt batch_size concurrency e)"
    using requests_of_run [OF bat conc] by blast
  have detail: "?W = ?open @ [Log (Msg_total_batches ?n)] @ fst (drain ?n concurrency 0 pre)
                  @ (if stop_set then [Status Msg_stopping] else [])
                  @ [Log (Msg_bad_format (rng res)),
                     Log (Msg_raw (case raw res of None \<Rightarrow> [] | Some s \<Rightarrow> s)),
                     Error Runtime_error_unparsable]
                \<and> updates_of ?W = merged_of pre"
    if pre: "list_all passes pre"
  proof -
    have tail: "drain ?n concurrency k ((stop_set, Inr res) # post)
                  = ((if stop_set then [Status Msg_stopping] else [])
                     @ [Log (Msg_bad_format (rng res)),
                        Log (Msg_raw (case raw res of None \<Rightarrow> [] | Some s \<Rightarrow> s))],
                     Some Runtime_error_unparsable)" for k
      using fail by simp
    have d: "?D = (fst (drain ?n concurrency 0 pre)
                  @ (if stop_set then [Status Msg_stopping] else [])
                  @ [Log (Msg_bad_format (rng res)),
                     Log (Msg_raw (case raw res of None \<Rightarrow> [] | Some s \<Rightarrow> s))],
                  Some Runtime_error_unparsable)"
      unfolding order
      using drain_passes [OF pre, of ?n concurrency 0 "(stop_set, Inr res) # post"]
      by (simp only: tail fst_conv snd_conv)
    have tp: "takeWhile passes pre = pre"
      using pre by (simp add: list_all_iff takeWhile_eq_all_conv)
    have "updates_of ?W = merged_of pre" using ups unfolding tp .
    moreover have "?W = ?open @ [Log (Msg_total_batches ?n)] @ fst (drain ?n concurrency 0 pre)
                  @ (if stop_set then [Status Msg_stopping] else [])
                  @ [Log (Msg_bad_format (rng res)),
                     Log (Msg_raw (case raw res of None \<Rightarrow> [] | Some s \<Rightarrow> s)),
                     Error Runtime_error_unparsable]"
      unfolding W d by simp
    ultimately show ?thesis by (rule conjI [rotated])
  qed
  from fin cut have ending: "\<exists>x. filter is_terminal ?W = [Error x]
             \<and> ?W = ?open @ [Log (Msg_total_batches ?n)]
                 @ fst (drain ?n concurrency 0
                          (takeWhile passes ?fs @ take 1 (dropWhile passes ?fs)))
                 @ [Error x]"
    by blast
  show ?thesis
  proof (intro conjI impI)
    show "Done \<notin> set ?W" by (rule no_done)
    show "\<exists>x. filter is_terminal ?W = [Error x]
             \<and> ?W = ?open @ [Log (Msg_total_batches ?n)]
                 @ fst (drain ?n concurrency 0
                          (takeWhile passes ?fs @ take 1 (dropWhile passes ?fs)))
                 @ [Error x]" by (rule ending)
    show "updates_of ?W = merged_of (takeWhile passes pre)" by (rule ups)
    show "items (poll_queue ?W st)
            = fold apply_translation_mapping (merged_of (takeWhile passes pre)) (items st)"
      by (rule tab)
    show "\<exists>loop_events.
             worker_actions its model_id guide_prompt batch_size concurrency e
               = map Put (?open @ [Log (Msg_total_batches ?n)])
                 @ map Submit batches @ map Put loop_events" by (rule acts)
    show "\<forall>i < length batches. \<forall>p.
             \<not> worker_stop e i \<and> build_user_payload (batches ! i) guide_prompt = Inr p
             \<longrightarrow> (guide_prompt, p)
                   \<in> set (remote_requests its guide_prompt batch_size concurrency e)"
      by (rule reqs)
    show "?W = ?open @ [Log (Msg_total_batches ?n)] @ fst (drain ?n concurrency 0 pre)
                  @ (if stop_set then [Status Msg_stopping] else [])
                  @ [Log (Msg_bad_format (rng res)),
                     Log (Msg_raw (case raw res of None \<Rightarrow> [] | Some s \<Rightarrow> s)),
                     Error Runtime_error_unparsable]" if "list_all passes pre"
      using detail [OF that] by (rule conjunct1)
    show "updates_of ?W = merged_of pre" if "list_all passes pre"
      using detail [OF that] by (rule conjunct2)
  qed
qed

lemma py_str_digit: "n < 10 \<Longrightarrow> py_str n = Inr [48 + n]"
  by (simp add: py_str_def str_nat.simps max_str_digits_def)

lemmas worker_eval =
  select_pending_def make_batches_def as_completed_def translate_one_batch_def
  build_user_payload_def payload_line_def py_str_digit parse_model_output_def
  parse_model_line_def

theorem fatal_on_empty_mapping_witness:
  "Done \<notin> set (translate_worker
         [\<lparr>index = 1, time = [], src = str_of ''one'', tr = []\<rparr>,
          \<lparr>index = 2, time = [], src = str_of ''two'', tr = []\<rparr>]
         (str_of ''m'') (str_of ''g'') 1 2
         \<lparr>completion_order = [0, 1], worker_stop = (\<lambda>i. False),
          remote = (\<lambda>i g p. Content (Some (if i = 0 then str_of ''1: mot'' else str_of ''??''))),
          loop_stop = (\<lambda>k. False), final_stop = False\<rparr>)
   \<and> Log (Msg_raw (str_of ''??'')) \<in> set (translate_worker
         [\<lparr>index = 1, time = [], src = str_of ''one'', tr = []\<rparr>,
          \<lparr>index = 2, time = [], src = str_of ''two'', tr = []\<rparr>]
         (str_of ''m'') (str_of ''g'') 1 2
         \<lparr>completion_order = [0, 1], worker_stop = (\<lambda>i. False),
          remote = (\<lambda>i g p. Content (Some (if i = 0 then str_of ''1: mot'' else str_of ''??''))),
          loop_stop = (\<lambda>k. False), final_stop = False\<rparr>)
   \<and> updates_of (translate_worker
         [\<lparr>index = 1, time = [], src = str_of ''one'', tr = []\<rparr>,
          \<lparr>index = 2, time = [], src = str_of ''two'', tr = []\<rparr>]
         (str_of ''m'') (str_of ''g'') 1 2
         \<lparr>completion_order = [0, 1], worker_stop = (\<lambda>i. False),
          remote = (\<lambda>i g p. Content (Some (if i = 0 then str_of ''1: mot'' else str_of ''??''))),
          loop_stop = (\<lambda>k. False), final_stop = False\<rparr>) = [[(1, str_of ''mot'')]]
   \<and> items (poll_queue (translate_worker
         [\<lparr>index = 1, time = [], src = str_of ''one'', tr = []\<rparr>,
          \<lparr>index = 2, time = [], src = str_of ''two'', tr = []\<rparr>]
         (str_of ''m'') (str_of ''g'') 1 2
         \<lparr>completion_order = [0, 1], worker_stop = (\<lambda>i. False),
          remote = (\<lambda>i g p. Content (Some (if i = 0 then str_of ''1: mot'' else str_of ''??''))),
          loop_stop = (\<lambda>k. False), final_stop = False\<rparr>)
         \<lparr>items = [\<lparr>index = 1, time = [], src = str_of ''one'', tr = []\<rparr>,
                   \<lparr>index = 2, time = [], src = str_of ''two'', tr = []\<rparr>],
          input_format = Some Tsv, status_var = Msg_ready, log_text = [], error_boxes = [],
          stop_flag = False, worker_thread = True\<rparr>)
     = [\<lparr>index = 1, time = [], src = str_of ''one'', tr = str_of ''mot''\<rparr>,
        \<lparr>index = 2, time = [], src = str_of ''two'', tr = []\<rparr>]
   \<and> (str_of ''g'', payload_header @ str_of ''2'' @ TAB # str_of ''two'')
       \<in> set (remote_requests
         [\<lparr>index = 1, time = [], src = str_of ''one'', tr = []\<rparr>,
          \<lparr>index = 2, time = [], src = str_of ''two'', tr = []\<rparr>]
         (str_of ''g'') 1 2
         \<lparr>completion_order = [0, 1], worker_stop = (\<lambda>i. False),
          remote = (\<lambda>i g p. Content (Some (if i = 0 then str_of ''1: mot'' else str_of ''??''))),
          loop_stop = (\<lambda>k. False), final_stop = False\<rparr>)"
proof -
  let ?its = "[\<lparr>index = 1, time = [], src = str_of ''one'', tr = []\<rparr>, \<lparr>index = 2, time = [], src = str_of ''two'', tr = []\<rparr>]"
  let ?e = "\<lparr>completion_order = [0, 1], worker_stop = (\<lambda>i. False),
          remote = (\<lambda>i g p. Content (Some (if i = 0 then str_of ''1: mot'' else str_of ''??''))),
          loop_stop = (\<lambda>k. False), final_stop = False\<rparr>"
  let ?st = "\<lparr>items = [\<lparr>index = 1, time = [], src = str_of ''one'', tr = []\<rparr>,
                   \<lparr>index = 2, time = [], src = str_of ''two'', tr = []\<rparr>],
          input_format = Some Tsv, status_var = Msg_ready, log_text = [], error_boxes = [],
          stop_flag = False, worker_thread = True\<rparr>"
  let ?r1 = "\<lparr>mapping = [(1, str_of ''mot'')], rng = Some (1, 1), raw = Some (str_of ''1: mot''), skipped = False\<rparr>"
  let ?r2 = "\<lparr>mapping = [], rng = Some (2, 2), raw = Some (str_of ''??''), skipped = False\<rparr>"
  let ?bs = "[[\<lparr>index = 1, time = [], src = str_of ''one'', tr = []\<rparr>], [\<lparr>index = 2, time = [], src = str_of ''two'', tr = []\<rparr>]]"
  let ?W = "translate_worker ?its (str_of ''m'') (str_of ''g'') 1 2 ?e"
  have h1: "select_pending ?its \<noteq> []"
    by (simp add: select_pending_def text_eval)
  have h2: "make_batches 1 (sort_key index (select_pending ?its)) = Inr ?bs"
    by (simp add: select_pending_def make_batches_def py_range.simps text_eval)
  have h3: "(0::int) < 2" by simp
  have h4: "as_completed ?e (str_of ''g'') ?bs = [(False, Inr ?r1)] @ (False, Inr ?r2) # []"
    by (simp add: worker_eval codec_eval text_eval upt_rec)
  have h5: "\<not> skipped ?r2 \<and> mapping ?r2 = []" by simp
  have pre: "list_all passes [(False, Inr ?r1)]" by simp
  have mg: "merged_of (takeWhile passes [(False, Inr ?r1)]) = [[(1, str_of ''mot'')]]" by simp
  have m: "fold apply_translation_mapping [[(1, str_of ''mot'')]] (items ?st)
             = [\<lparr>index = 1, time = [], src = str_of ''one'', tr = str_of ''mot''\<rparr>, \<lparr>index = 2, time = [], src = str_of ''two'', tr = []\<rparr>]"
    by (simp add: apply_translation_mapping_def merge_entry_def idx_to_item_def)
  have pl: "\<not> worker_stop ?e 1
            \<and> build_user_payload (?bs ! 1) (str_of ''g'')
                = Inr (payload_header @ str_of ''2'' @ TAB # str_of ''two'')"
    by (simp add: build_user_payload_def payload_line_def py_str_digit flatten_src_def
          replace1_def text_eval)
  note run = fatal_on_empty_mapping [OF h1 h2 h3 h4 h5, of "str_of ''m''" ?st]
  have c1: "Done \<notin> set ?W" by (rule run [THEN conjunct1])
  have "?W = opening_events (length ?its) (str_of ''m'') 1 2
             @ [Log (Msg_total_batches (length ?bs))]
             @ fst (drain (length ?bs) 2 0 [(False, Inr ?r1)])
             @ (if False then [Status Msg_stopping] else [])
             @ [Log (Msg_bad_format (rng ?r2)),
                Log (Msg_raw (case raw ?r2 of None \<Rightarrow> [] | Some s \<Rightarrow> s)),
                Error Runtime_error_unparsable]"
    by (rule run [THEN conjunct2, THEN conjunct2, THEN conjunct2, THEN conjunct2,
          THEN conjunct2, THEN conjunct2, THEN mp, OF pre, THEN conjunct1])
  then have c2: "Log (Msg_raw (str_of ''??'')) \<in> set ?W" by simp
  have c3: "updates_of ?W = [[(1, str_of ''mot'')]]"
    using run [THEN conjunct2, THEN conjunct2, THEN conjunct1] by (simp only: mg)
  have c4: "items (poll_queue ?W ?st) = [\<lparr>index = 1, time = [], src = str_of ''one'', tr = str_of ''mot''\<rparr>, \<lparr>index = 2, time = [], src = str_of ''two'', tr = []\<rparr>]"
    using run [THEN conjunct2, THEN conjunct2, THEN conjunct2, THEN conjunct1]
    by (simp only: mg m)
  have c5: "(str_of ''g'', payload_header @ str_of ''2'' @ TAB # str_of ''two'')
              \<in> set (remote_requests ?its (str_of ''g'') 1 2 ?e)"
    by (rule run [THEN conjunct2, THEN conjunct2, THEN conjunct2, THEN conjunct2,
          THEN conjunct2, THEN conjunct1, THEN spec, THEN mp, THEN spec, THEN mp, OF _ pl])
       simp
  show ?thesis by (intro conjI) (rule c1 c2 c3 c4 c5)+
qed

text \<open>
  The claim as stated has the raw reply of every result that is not skipped and has an
  empty mapping put on the log. In this run of three batches on a pool of one worker the
  first two replies cannot be decoded. The first one ends the run; the second result is
  not skipped and has an empty mapping, but it is never read, and its raw reply does not
  reach the log. No batch is submitted after the failure because all three were handed to
  the pool before the loop; each of them still sends its request.
\<close>

theorem later_failure_not_logged_counterexample:
  "make_batches 1 (sort_key index (select_pending
         [\<lparr>index = 1, time = [], src = str_of ''one'', tr = []\<rparr>,
          \<lparr>index = 2, time = [], src = str_of ''two'', tr = []\<rparr>,
          \<lparr>index = 3, time = [], src = str_of ''three'', tr = []\<rparr>]))
     = Inr [[\<lparr>index = 1, time = [], src = str_of ''one'', tr = []\<rparr>],
            [\<lparr>index = 2, time = [], src = str_of ''two'', tr = []\<rparr>],
            [\<lparr>index = 3, time = [], src = str_of ''three'', tr = []\<rparr>]]
   \<and> as_completed
         \<lparr>completion_order = [0, 1, 2], worker_stop = (\<lambda>i. False),
          remote = (\<lambda>i g p. Content (Some (if i = 0 then str_of ''??''
                                           else if i = 1 then str_of ''!!'' else str_of ''3: ba''))),
          loop_stop = (\<lambda>k. False), final_stop = False\<rparr>
         (str_of ''g'')
         [[\<lparr>index = 1, time = [], src = str_of ''one'', tr = []\<rparr>],
          [\<lparr>index = 2, time = [], src = str_of ''two'', tr = []\<rparr>],
          [\<lparr>index = 3, time = [], src = str_of ''three'', tr = []\<rparr>]] ! 1
     = (False, Inr \<lparr>mapping = [], rng = Some (2, 2), raw = Some (str_of ''!!''),
                    skipped = False\<rparr>)
   \<and> translate_worker
         [\<lparr>index = 1, time = [], src = str_of ''one'', tr = []\<rparr>,
          \<lparr>index = 2, time = [], src = str_of ''two'', tr = []\<rparr>,
          \<lparr>index = 3, time = [], src = str_of ''three'', tr = []\<rparr>]
         (str_of ''m'') (str_of ''g'') 1 1
         \<lparr>completion_order = [0, 1, 2], worker_stop = (\<lambda>i. False),
          remote = (\<lambda>i g p. Content (Some (if i = 0 then str_of ''??''
                                           else if i = 1 then str_of ''!!'' else str_of ''3: ba''))),
          loop_stop = (\<lambda>k. False), final_stop = False\<rparr>
     = [Status (Msg_start 3 1 1 (str_of ''m'')), Log (Msg_config (str_of ''m'') 3 1 1),
        Log (Msg_total_batches 3), Log (Msg_bad_format (Some (1, 1))),
        Log (Msg_raw (str_of ''??'')), Error Runtime_error_unparsable]
   \<and> Log (Msg_raw (str_of ''!!'')) \<notin> set (translate_worker
         [\<lparr>index = 1, time = [], src = str_of ''one'', tr = []\<rparr>,
          \<lparr>index = 2, time = [], src = str_of ''two'', tr = []\<rparr>,
          \<lparr>index = 3, time = [], src = str_of ''three'', tr = []\<rparr>]
         (str_of ''m'') (str_of ''g'') 1 1
         \<lparr>completion_order = [0, 1, 2], worker_stop = (\<lambda>i. False),
          remote = (\<lambda>i g p. Content (Some (if i = 0 then str_of ''??''
                                           else if i = 1 then str_of ''!!'' else str_of ''3: ba''))),
          loop_stop = (\<lambda>k. False), final_stop = False\<rparr>)
   \<and> remote_requests
         [\<lparr>index = 1, time = [], src = str_of ''one'', tr = []\<rparr>,
          \<lparr>index = 2, time = [], src = str_of ''two'', tr = []\<rparr>,
          \<lparr>index = 3, time = [], src = str_of ''three'', tr = []\<rparr>]
         (str_of ''g'') 1 1
         \<lparr>completion_order = [0, 1, 2], worker_stop = (\<lambda>i. False),
          remote = (\<lambda>i g p. Content (Some (if i = 0 then str_of ''??''
                                           else if i = 1 then str_of ''!!'' else str_of ''3: ba''))),
          loop_stop = (\<lambda>k. False), final_stop = False\<rparr>
     = [(str_of ''g'', payload_header @ str_of ''1'' @ TAB # str_of ''one''),
        (str_of ''g'', payload_header @ str_of ''2'' @ TAB # str_of ''two''),
        (str_of ''g'', payload_header @ str_of ''3'' @ TAB # str_of ''three'')]"
proof -
  let ?its = "[\<lparr>index = 1, time = [], src = str_of ''one'', tr = []\<rparr>,
          \<lparr>index = 2, time = [], src = str_of ''two'', tr = []\<rparr>,
          \<lparr>index = 3, time = [], src = str_of ''three'', tr = []\<rparr>]"
  let ?bs = "[[\<lparr>index = 1, time = [], src = str_of ''one'', tr = []\<rparr>],
          [\<lparr>index = 2, time = [], src = str_of ''two'', tr = []\<rparr>],
          [\<lparr>index = 3, time = [], src = str_of ''three'', tr = []\<rparr>]]"
  let ?e = "\<lparr>completion_order = [0, 1, 2], worker_stop = (\<lambda>i. False),
          remote = (\<lambda>i g p. Content (Some (if i = 0 then str_of ''??''
                                           else if i = 1 then str_of ''!!'' else str_of ''3: ba''))),
          loop_stop = (\<lambda>k. False), final_stop = False\<rparr>"
  have b: "make_batches 1 (sort_key index (select_pending ?its)) = Inr ?bs"
    by (simp add: select_pending_def make_batches_def py_range.simps text_eval)
  have fs: "as_completed ?e (str_of ''g'') ?bs
              = [(False, Inr \<lparr>mapping = [], rng = Some (1, 1), raw = Some (str_of ''??''),
                               skipped = False\<rparr>),
                 (False, Inr \<lparr>mapping = [], rng = Some (2, 2), raw = Some (str_of ''!!''),
                               skipped = False\<rparr>),
                 (False, Inr \<lparr>mapping = [(3, str_of ''ba'')], rng = Some (3, 3),
                               raw = Some (str_of ''3: ba''), skipped = False\<rparr>)]"
    by (simp add: worker_eval codec_eval text_eval upt_rec)
  have W: "translate_worker ?its (str_of ''m'') (str_of ''g'') 1 1 ?e
     = [Status (Msg_start 3 1 1 (str_of ''m'')), Log (Msg_config (str_of ''m'') 3 1 1),
        Log (Msg_total_batches 3), Log (Msg_bad_format (Some (1, 1))),
        Log (Msg_raw (str_of ''??'')), Error Runtime_error_unparsable]"
    by (simp add: worker_queue opening_events_def lower_def py_range.simps worker_eval
          codec_eval text_eval upt_rec)
  have r: "remote_requests ?its (str_of ''g'') 1 1 ?e
     = [(str_of ''g'', payload_header @ str_of ''1'' @ TAB # str_of ''one''),
        (str_of ''g'', payload_header @ str_of ''2'' @ TAB # str_of ''two''),
        (str_of ''g'', payload_header @ str_of ''3'' @ TAB # str_of ''three'')]"
    by (simp add: remote_requests_def select_pending_def make_batches_def py_range.simps
          build_user_payload_def payload_line_def py_str_digit flatten_src_def
          replace1_def text_eval upt_rec)
  show ?thesis unfolding W r b fs by (simp add: str_of_def)
qed

lemma as_completed_all:
  assumes "mset (completion_order e) = mset [0..<length batches]"
  shows "mset (map snd (as_completed e guide_prompt batches))
           = mset (map (\<lambda>i. translate_one_batch (worker_stop e i) (remote e i) guide_prompt
                               (batches ! i)) [0..<length batches])"
proof -
  have "set (completion_order e) = set [0..<length batches]"
    using assms by (rule mset_eq_setD)
  then have "\<forall>i \<in> set (completion_order e). i < length batches" by simp
  then have "filter (\<lambda>i. i < length batches) (completion_order e) = completion_order e"
    by (simp only: filter_id_conv)
  then have "map snd (as_completed e guide_prompt batches)
               = map (\<lambda>i. translate_one_batch (worker_stop e i) (remote e i) guide_prompt
                               (batches ! i)) (completion_order e)"
    by (simp add: as_completed_def Let_def map_snd_zip)
  then show ?thesis by (simp only: mset_map assms)
qed

lemma worker_all_pass:
  assumes pend: "select_pending its \<noteq> []"
    and bat: "make_batches batch_size (sort_key index (select_pending its)) = Inr batches"
    and conc: "0 < concurrency"
    and pass: "list_all passes (as_completed e guide_prompt batches)"
  shows "translate_worker its model_id guide_prompt batch_size concurrency e
           = opening_events (length its) model_id batch_size concurrency
             @ [Log (Msg_total_batches (length batches))]
             @ fst (drain (length batches) concurrency 0 (as_completed e guide_prompt batches))
             @ (if final_stop e then [Log Msg_stop_log, Status Msg_stopped] else [])
             @ [Done]"
    and "updates_of (translate_worker its model_id guide_prompt batch_size concurrency e)
           = merged_of (as_completed e guide_prompt batches)"
proof -
  let ?fs = "as_completed e guide_prompt batches"
  note dp = drain_passes [OF pass, of "length batches" concurrency 0 "[]", simplified]
  have "snd (drain (length batches) concurrency 0 ?fs)
          = snd (fst (drain (length batches) concurrency 0 ?fs), None :: exn option)"
    by (rule arg_cong [OF dp [THEN conjunct1]])
  then have d: "snd (drain (length batches) concurrency 0 ?fs) = None"
    by (simp only: snd_conv)
  have u: "updates_of (fst (drain (length batches) concurrency 0 ?fs)) = merged_of ?fs"
    by (rule dp [THEN conjunct2])
  show W: "translate_worker its model_id guide_prompt batch_size concurrency e
           = opening_events (length its) model_id batch_size concurrency
             @ [Log (Msg_total_batches (length batches))]
             @ fst (drain (length batches) concurrency 0 ?fs)
             @ (if final_stop e then [Log Msg_stop_log, Status Msg_stopped] else [])
             @ [Done]"
    using pend bat conc d by (simp add: worker_queue)
  have "updates_of (opening_events (length its) model_id batch_size concurrency) = []"
    by (simp add: opening_events_def)
  then show "updates_of (translate_worker its model_id guide_prompt batch_size concurrency e)
           = merged_of ?fs"
    unfolding W using u by (simp add: updates_of_append)
qed


lemma drain_no_stop_message:
  "Log Msg_stop_log \<notin> set (fst (drain t c n fs))
   \<and> Status Msg_stopped \<notin> set (fst (drain t c n fs))"
proof (induction fs arbitrary: n)
  case Nil
  then show ?case by simp
next
  case (Cons f fs)
  obtain stop_set fut where f: "f = (stop_set, fut)" by (cases f)
  show ?case
  proof (cases fut)
    case (Inl x)
    with f show ?thesis by simp
  next
    case (Inr res)
    with f Cons.IH show ?thesis
      by (simp add: Let_def split_beta split: option.splits)
  qed
qed

lemma opening_no_stop_message:
  "Log Msg_stop_log \<notin> set (opening_events n model_id batch_size concurrency)
   \<and> Status Msg_stopped \<notin> set (opening_events n model_id batch_size concurrency)"
  by (simp add: opening_events_def)

text \<open>
  Claim C5, as amended. The queue of every run ends with a terminal message, done or error,
  and holds no other terminal message; there is no terminal message for a stopped run.
  Take a run with pending units, a valid batch size and pool size, in which every future
  passes (it holds a result that is skipped or has a mapping that is not empty). Its
  loop takes every completed future and merges the mappings of all that were not skipped:
  its updates are those mappings, the unit table after the run holds them, and when the
  completion order is a permutation of the submitted batches the loop has taken the
  future of every batch. The run ends with done. When it finds the stop flag set after
  the loop, it puts the stop log and the stopped status on the queue just before done;
  when it finds the flag clear there, whatever the flag was during the loop, it puts
  neither of them on the queue.
\<close>

theorem terminal_event_protocol:
  "(\<exists>body final.
       translate_worker its model_id guide_prompt batch_size concurrency e = body @ [final]
     \<and> list_all (\<lambda>ev. \<not> is_terminal ev) body
     \<and> (final = Done \<or> (\<exists>x. final = Error x)))
   \<and> length (filter is_terminal
               (translate_worker its model_id guide_prompt batch_size concurrency e)) = 1
   \<and> (select_pending its \<noteq> []
        \<and> make_batches batch_size (sort_key index (select_pending its)) = Inr batches
        \<and> 0 < concurrency
        \<and> list_all passes (as_completed e guide_prompt batches)
      \<longrightarrow>
        (\<exists>body. translate_worker its model_id guide_prompt batch_size concurrency e
                  = body @ (if final_stop e then [Log Msg_stop_log, Status Msg_stopped, Done]
                            else [Done])
               \<and> list_all (\<lambda>ev. \<not> is_terminal ev) body
               \<and> Log Msg_stop_log \<notin> set body \<and> Status Msg_stopped \<notin> set body)
      \<and> updates_of (translate_worker its model_id guide_prompt batch_size concurrency e)
          = merged_of (as_completed e guide_prompt batches)
      \<and> items (poll_queue
                  (translate_worker its model_id guide_prompt batch_size concurrency e) st)
          = fold apply_translation_mapping (merged_of (as_completed e guide_prompt batches))
              (items st)
      \<and> (mset (completion_order e) = mset [0..<length batches] \<longrightarrow>
           mset (map snd (as_completed e guide_prompt batches))
             = mset (map (\<lambda>i. translate_one_batch (worker_stop e i) (remote e i) guide_prompt
                                 (batches ! i)) [0..<length batches])))"
proof (intro conjI impI)
  let ?W = "translate_worker its model_id guide_prompt batch_size concurrency e"
  from worker_shape [of its model_id guide_prompt batch_size concurrency e]
  obtain body final where W: "?W = body @ [final]"
    and quiet: "list_all (\<lambda>ev. \<not> is_terminal ev) body"
    and fin: "final = Done \<or> (\<exists>x. final = Error x)"
    by blast
  show "\<exists>body final. ?W = body @ [final] \<and> list_all (\<lambda>ev. \<not> is_terminal ev) body
          \<and> (final = Done \<or> (\<exists>x. final = Error x))"
    using W quiet fin by blast
  have "is_terminal final" using fin by auto
  then show "length (filter is_terminal ?W) = 1"
    unfolding W using no_terminal_filter [OF quiet] by simp
next
  let ?W = "translate_worker its model_id guide_prompt batch_size concurrency e"
  let ?fs = "as_completed e guide_prompt batches"
  let ?body = "opening_events (length its) model_id batch_size concurrency
             @ [Log (Msg_total_batches (length batches))]
             @ fst (drain (length batches) concurrency 0 ?fs)"
  assume a: "select_pending its \<noteq> []
        \<and> make_batches batch_size (sort_key index (select_pending its)) = Inr batches
        \<and> 0 < concurrency \<and> list_all passes ?fs"
  then have pend: "select_pending its \<noteq> []"
    and bat: "make_batches batch_size (sort_key index (select_pending its)) = Inr batches"
    and conc: "0 < concurrency" and pass: "list_all passes ?fs"
    by simp_all
  note W = worker_all_pass(1) [OF pend bat conc pass, of model_id]
  note U = worker_all_pass(2) [OF pend bat conc pass, of model_id]
  have "?W = ?body @ (if final_stop e then [Log Msg_stop_log, Status Msg_stopped, Done]
                      else [Done])"
    unfolding W by simp
  moreover have "list_all (\<lambda>ev. \<not> is_terminal ev) ?body"
    using opening_no_terminal [of "length its" model_id batch_size concurrency]
      drain_no_terminal [of "length batches" concurrency 0 ?fs] by simp
  moreover have "Log Msg_stop_log \<notin> set ?body \<and> Status Msg_stopped \<notin> set ?body"
    using opening_no_stop_message [of "length its" model_id batch_size concurrency]
      drain_no_stop_message [of "length batches" concurrency 0 ?fs] by simp
  ultimately show "\<exists>body. ?W = body @ (if final_stop e
                                        then [Log Msg_stop_log, Status Msg_stopped, Done]
                                        else [Done])
                     \<and> list_all (\<lambda>ev. \<not> is_terminal ev) body
                     \<and> Log Msg_stop_log \<notin> set body \<and> Status Msg_stopped \<notin> set body"
    by blast
  show "updates_of ?W = merged_of ?fs" by (rule U)
  show "items (poll_queue ?W st) = fold apply_translation_mapping (merged_of ?fs) (items st)"
    by (simp only: poll_queue_items U)
next
  assume "mset (completion_order e) = mset [0..<length batches]"
  then show "mset (map snd (as_completed e guide_prompt batches))
             = mset (map (\<lambda>i. translate_one_batch (worker_stop e i) (remote e i) guide_prompt
                                 (batches ! i)) [0..<length batches])"
    by (rule as_completed_all)
qed

theorem terminal_event_protocol_witness:
  "length (filter is_terminal (translate_worker
       [\<lparr>index = 1, time = [], src = str_of ''one'', tr = []\<rparr>,
        \<lparr>index = 2, time = [], src = str_of ''two'', tr = []\<rparr>]
       (str_of ''m'') (str_of ''g'') 1 1
       \<lparr>completion_order = [0, 1], worker_stop = (\<lambda>i. i = 1),
        remote = (\<lambda>i g p. Content (Some (str_of ''1: mot''))),
        loop_stop = (\<lambda>k. True), final_stop = True\<rparr>)) = 1
   \<and> updates_of (translate_worker
       [\<lparr>index = 1, time = [], src = str_of ''one'', tr = []\<rparr>,
        \<lparr>index = 2, time = [], src = str_of ''two'', tr = []\<rparr>]
       (str_of ''m'') (str_of ''g'') 1 1
       \<lparr>completion_order = [0, 1], worker_stop = (\<lambda>i. i = 1),
        remote = (\<lambda>i g p. Content (Some (str_of ''1: mot''))),
        loop_stop = (\<lambda>k. True), final_stop = True\<rparr>) = [[(1, str_of ''mot'')]]
   \<and> items (poll_queue (translate_worker
       [\<lparr>index = 1, time = [], src = str_of ''one'', tr = []\<rparr>,
        \<lparr>index = 2, time = [], src = str_of ''two'', tr = []\<rparr>]
       (str_of ''m'') (str_of ''g'') 1 1
       \<lparr>completion_order = [0, 1], worker_stop = (\<lambda>i. i = 1),
        remote = (\<lambda>i g p. Content (Some (str_of ''1: mot''))),
        loop_stop = (\<lambda>k. True), final_stop = True\<rparr>)
       \<lparr>items = [\<lparr>index = 1, time = [], src = str_of ''one'', tr = []\<rparr>,
                 \<lparr>index = 2, time = [], src = str_of ''two'', tr = []\<rparr>],
        input_format = Some Tsv, status_var = Msg_ready, log_text = [], error_boxes = [],
        stop_flag = True, worker_thread = True\<rparr>)
     = [\<lparr>index = 1, time = [], src = str_of ''one'', tr = str_of ''mot''\<rparr>,
        \<lparr>index = 2, time = [], src = str_of ''two'', tr = []\<rparr>]
   \<and> (\<exists>body. translate_worker
       [\<lparr>index = 1, time = [], src = str_of ''one'', tr = []\<rparr>,
        \<lparr>index = 2, time = [], src = str_of ''two'', tr = []\<rparr>]
       (str_of ''m'') (str_of ''g'') 1 1
       \<lparr>completion_order = [0, 1], worker_stop = (\<lambda>i. i = 1),
        remote = (\<lambda>i g p. Content (Some (str_of ''1: mot''))),
        loop_stop = (\<lambda>k. True), final_stop = True\<rparr>
       = body @ [Log Msg_stop_log, Status Msg_stopped, Done]
     \<and> Log Msg_stop_log \<notin> set body \<and> Status Msg_stopped \<notin> set body)"
proof -
  let ?its = "[\<lparr>index = 1, time = [], src = str_of ''one'', tr = []\<rparr>, \<lparr>index = 2, time = [], src = str_of ''two'', tr = []\<rparr>]"
  let ?e = "\<lparr>completion_order = [0, 1], worker_stop = (\<lambda>i. i = 1),
        remote = (\<lambda>i g p. Content (Some (str_of ''1: mot''))),
        loop_stop = (\<lambda>k. True), final_stop = True\<rparr>"
  let ?st = "\<lparr>items = [\<lparr>index = 1, time = [], src = str_of ''one'', tr = []\<rparr>,
                 \<lparr>index = 2, time = [], src = str_of ''two'', tr = []\<rparr>],
        input_format = Some Tsv, status_var = Msg_ready, log_text = [], error_boxes = [],
        stop_flag = True, worker_thread = True\<rparr>"
  let ?r1 = "\<lparr>mapping = [(1, str_of ''mot'')], rng = Some (1, 1), raw = Some (str_of ''1: mot''), skipped = False\<rparr>"
  let ?r2 = "\<lparr>mapping = [], rng = None, raw = None, skipped = True\<rparr>"
  let ?bs = "[[\<lparr>index = 1, time = [], src = str_of ''one'', tr = []\<rparr>], [\<lparr>index = 2, time = [], src = str_of ''two'', tr = []\<rparr>]]"
  let ?W = "translate_worker ?its (str_of ''m'') (str_of ''g'') 1 1 ?e"
  have h1: "select_pending ?its \<noteq> []"
    by (simp add: select_pending_def text_eval)
  have h2: "make_batches 1 (sort_key index (select_pending ?its)) = Inr ?bs"
    by (simp add: select_pending_def make_batches_def py_range.simps text_eval)
  have h3: "(0::int) < 1" by simp
  have fs: "as_completed ?e (str_of ''g'') ?bs = [(True, Inr ?r1), (True, Inr ?r2)]"
    by (simp add: worker_eval codec_eval text_eval upt_rec)
  have h4: "list_all passes (as_completed ?e (str_of ''g'') ?bs)"
    unfolding fs by simp
  have h5: "final_stop ?e" by simp
  have mg: "merged_of (as_completed ?e (str_of ''g'') ?bs) = [[(1, str_of ''mot'')]]"
    unfolding fs by simp
  have m: "fold apply_translation_mapping [[(1, str_of ''mot'')]] (items ?st)
           = [\<lparr>index = 1, time = [], src = str_of ''one'', tr = str_of ''mot''\<rparr>, \<lparr>index = 2, time = [], src = str_of ''two'', tr = []\<rparr>]"
    by (simp add: apply_translation_mapping_def merge_entry_def idx_to_item_def)
  note run = terminal_event_protocol [of ?its "str_of ''m''" "str_of ''g''" 1 1 ?e ?bs ?st]
  note stopped = run [THEN conjunct2, THEN conjunct2, THEN mp, OF conjI [OF h1
      conjI [OF h2 conjI [OF h3 h4]]]]
  have c1: "length (filter is_terminal ?W) = 1"
    by (rule run [THEN conjunct2, THEN conjunct1])
  have c2: "updates_of ?W = [[(1, str_of ''mot'')]]"
    using stopped [THEN conjunct2, THEN conjunct1] by (simp only: mg)
  have c3: "items (poll_queue ?W ?st)
              = [\<lparr>index = 1, time = [], src = str_of ''one'', tr = str_of ''mot''\<rparr>, \<lparr>index = 2, time = [], src = str_of ''two'', tr = []\<rparr>]"
    using stopped [THEN conjunct2, THEN conjunct2, THEN conjunct1] by (simp only: mg m)
  have c4: "\<exists>body. ?W = body @ [Log Msg_stop_log, Status Msg_stopped, Done]
              \<and> Log Msg_stop_log \<notin> set body \<and> Status Msg_stopped \<notin> set body"
    using stopped [THEN conjunct1, unfolded if_P [OF h5]]
    by (elim exE conjE) (intro exI conjI, assumption+)
  show ?thesis by (intro conjI) (rule c1 c2 c3 c4)+
qed

text \<open>
  The claim as stated has a run during which the stop flag was set end in a terminal state
  of its own, stopped, that is neither done nor error. In the first run below, on a pool
  of one worker, the stop flag is set while the first of two batches is in flight and
  stays set: that batch is merged, the second is skipped, and the terminal message of the
  run is done. The second run differs in that the flag is clear again after the loop (the
  display side clears it whenever it takes an error message from the queue): the queue
  holds neither the stop log nor the stopped status, and ends with done.
\<close>

theorem stopped_run_ends_in_done_counterexample:
  "translate_worker
       [\<lparr>index = 1, time = [], src = str_of ''one'', tr = []\<rparr>,
        \<lparr>index = 2, time = [], src = str_of ''two'', tr = []\<rparr>]
       (str_of ''m'') (str_of ''g'') 1 1
       \<lparr>completion_order = [0, 1], worker_stop = (\<lambda>i. i = 1),
        remote = (\<lambda>i g p. Content (Some (str_of ''1: mot''))),
        loop_stop = (\<lambda>k. True), final_stop = True\<rparr>
     = [Status (Msg_start 2 1 1 (str_of ''m'')), Log (Msg_config (str_of ''m'') 2 1 1),
        Log (Msg_total_batches 2), Status Msg_stopping,
        Update_translations [(1, str_of ''mot'')], Log (Msg_batch_ok 1 1 1 1 2),
        Status (Msg_progress 1 2 1), Status Msg_stopping,
        Log Msg_stop_log, Status Msg_stopped, Done]
   \<and> filter is_terminal (translate_worker
       [\<lparr>index = 1, time = [], src = str_of ''one'', tr = []\<rparr>,
        \<lparr>index = 2, time = [], src = str_of ''two'', tr = []\<rparr>]
       (str_of ''m'') (str_of ''g'') 1 1
       \<lparr>completion_order = [0, 1], worker_stop = (\<lambda>i. i = 1),
        remote = (\<lambda>i g p. Content (Some (str_of ''1: mot''))),
        loop_stop = (\<lambda>k. True), final_stop = True\<rparr>) = [Done]
   \<and> translate_worker
       [\<lparr>index = 1, time = [], src = str_of ''one'', tr = []\<rparr>,
        \<lparr>index = 2, time = [], src = str_of ''two'', tr = []\<rparr>]
       (str_of ''m'') (str_of ''g'') 1 1
       \<lparr>completion_order = [0, 1], worker_stop = (\<lambda>i. i = 1),
        remote = (\<lambda>i g p. Content (Some (str_of ''1: mot''))),
        loop_stop = (\<lambda>k. True), final_stop = False\<rparr>
     = [Status (Msg_start 2 1 1 (str_of ''m'')), Log (Msg_config (str_of ''m'') 2 1 1),
        Log (Msg_total_batches 2), Status Msg_stopping,
        Update_translations [(1, str_of ''mot'')], Log (Msg_batch_ok 1 1 1 1 2),
        Status (Msg_progress 1 2 1), Status Msg_stopping, Done]
   \<and> filter is_terminal (translate_worker
       [\<lparr>index = 1, time = [], src = str_of ''one'', tr = []\<rparr>,
        \<lparr>index = 2, time = [], src = str_of ''two'', tr = []\<rparr>]
       (str_of ''m'') (str_of ''g'') 1 1
       \<lparr>completion_order = [0, 1], worker_stop = (\<lambda>i. i = 1),
        remote = (\<lambda>i g p. Content (Some (str_of ''1: mot''))),
        loop_stop = (\<lambda>k. True), final_stop = False\<rparr>) = [Done]"
proof -
  have W: "translate_worker
       [\<lparr>index = 1, time = [], src = str_of ''one'', tr = []\<rparr>,
        \<lparr>index = 2, time = [], src = str_of ''two'', tr = []\<rparr>]
       (str_of ''m'') (str_of ''g'') 1 1
       \<lparr>completion_order = [0, 1], worker_stop = (\<lambda>i. i = 1),
        remote = (\<lambda>i g p. Content (Some (str_of ''1: mot''))),
        loop_stop = (\<lambda>k. True), final_stop = True\<rparr>
     = [Status (Msg_start 2 1 1 (str_of ''m'')), Log (Msg_config (str_of ''m'') 2 1 1),
        Log (Msg_total_batches 2), Status Msg_stopping,
        Update_translations [(1, str_of ''mot'')], Log (Msg_batch_ok 1 1 1 1 2),
        Status (Msg_progress 1 2 1), Status Msg_stopping,
        Log Msg_stop_log, Status Msg_stopped, Done]"
    by (simp add: worker_queue opening_events_def lower_def py_range.simps
          worker_eval codec_eval text_eval upt_rec)
  have V: "translate_worker
       [\<lparr>index = 1, time = [], src = str_of ''one'', tr = []\<rparr>,
        \<lparr>index = 2, time = [], src = str_of ''two'', tr = []\<rparr>]
       (str_of ''m'') (str_of ''g'') 1 1
       \<lparr>completion_order = [0, 1], worker_stop = (\<lambda>i. i = 1),
        remote = (\<lambda>i g p. Content (Some (str_of ''1: mot''))),
        loop_stop = (\<lambda>k. True), final_stop = False\<rparr>
     = [Status (Msg_start 2 1 1 (str_of ''m'')), Log (Msg_config (str_of ''m'') 2 1 1),
        Log (Msg_total_batches 2), Status Msg_stopping,
        Update_translations [(1, str_of ''mot'')], Log (Msg_batch_ok 1 1 1 1 2),
        Status (Msg_progress 1 2 1), Status Msg_stopping, Done]"
    by (simp add: worker_queue opening_events_def lower_def py_range.simps
          worker_eval codec_eval text_eval upt_rec)
  show ?thesis unfolding W V by simp
qed

section \<open>The SubRip grammar\<close>

lemma parse_srt_blocks_append:
  "parse_srt_blocks (xs @ ys) acc =
     (case parse_srt_blocks xs acc of
        Inl err \<Rightarrow> Inl err
      | Inr r \<Rightarrow> parse_srt_blocks ys r)"
  by (simp add: parse_srt_blocks_def for_each_append split: sum.splits)

lemma parse_srt_blocks_Cons:
  "parse_srt_blocks (b # bs) acc =
     (case parse_srt_block acc b of
        Inl err \<Rightarrow> Inl err
      | Inr r \<Rightarrow> parse_srt_blocks bs r)"
  by (simp add: parse_srt_blocks_def split: sum.splits)

lemma parse_srt_blocks_Nil: "parse_srt_blocks [] acc = Inr acc"
  by (simp add: parse_srt_blocks_def)

lemma parse_srt_as_loop: "parse_srt text = parse_srt_blocks (srt_blocks text) []"
proof (cases "strip (normalize_newlines text) = []")
  case True
  have "block_lines [] = []"
    by (simp add: block_lines_def strip_chars_def lstrip_chars_def rstrip_chars_def)
  then have "parse_srt_blocks [[]] [] = Inr []"
    by (simp add: parse_srt_blocks_def parse_srt_block_def srt_unit_def)
  then show ?thesis using True by (simp add: parse_srt_def srt_blocks_def)
next
  case False
  then show ?thesis by (simp add: parse_srt_def srt_blocks_def)
qed

lemma find_time_line_None:
  "find_time_line lines ixs = None \<longleftrightarrow> (\<forall>i \<in> set ixs. \<not> contains arrow (lines ! i))"
  by (induction ixs) auto

lemma find_time_line_Some:
  "find_time_line lines ixs = Some (t, s) \<Longrightarrow>
     \<exists>i \<in> set ixs. contains arrow (lines ! i) \<and> t = strip (lines ! i) \<and> s = i + 1"
  by (induction ixs) (auto split: if_splits)

lemma window_indices:
  "(\<lambda>i. lines ! i) ` set [start ..< min (start + 2) (length lines)]
     = set (take 2 (drop start lines))"
proof -
  let ?m = "min (start + 2) (length lines)"
  have "map (\<lambda>i. lines ! i) [start ..< ?m] = take 2 (drop start lines)"
  proof (rule nth_equalityI)
    show "length (map (\<lambda>i. lines ! i) [start ..< ?m]) = length (take 2 (drop start lines))"
      by (simp add: min_def) linarith
  next
    fix i assume "i < length (map (\<lambda>i. lines ! i) [start ..< ?m])"
    then have i: "i < ?m - start" by simp
    then have "i < 2" and "start + i < length lines" by (simp_all add: min_def split: if_splits)
    then show "map (\<lambda>i. lines ! i) [start ..< ?m] ! i = take 2 (drop start lines) ! i"
      using i by (simp add: nth_map_upt)
  qed
  then show ?thesis by (metis set_map)
qed

lemma time_window_drop:
  assumes "2 \<le> length lines"
  shows "time_window lines
           = take 2 (drop (if is_numeric (strip (lines ! 0)) then 1 else 0) lines)"
    and "has_index_line lines \<longleftrightarrow> is_numeric (strip (lines ! 0))"
    and "hd lines = lines ! 0"
proof -
  from assms have ne: "lines \<noteq> []" by auto
  then show hd: "hd lines = lines ! 0" by (simp add: hd_conv_nth)
  then show "has_index_line lines \<longleftrightarrow> is_numeric (strip (lines ! 0))"
    using ne by (simp add: has_index_line_def)
  show "time_window lines
           = take 2 (drop (if is_numeric (strip (lines ! 0)) then 1 else 0) lines)"
    using ne hd by (simp add: time_window_def has_index_line_def drop_Suc)
qed

lemma arrow_not_blank: "contains arrow s \<Longrightarrow> strip s \<noteq> []"
proof -
  have st: "startswith s arrow \<Longrightarrow> 45 \<in> set s" for s
    by (cases s) (auto simp: arrow_def)
  have "contains arrow s \<Longrightarrow> 45 \<in> set s"
  proof (induction s)
    case Nil
    then show ?case by (simp add: arrow_def)
  next
    case (Cons c s)
    then show ?case using st [of "c # s"] by auto
  qed
  moreover have "\<not> isspace 45" by (simp add: isspace_def)
  ultimately show "contains arrow s \<Longrightarrow> strip s \<noteq> []"
    by (auto simp: strip_empty_iff list_all_iff)
qed

text \<open>
  What the body of the loop does with the lines of a block: it raises on an index line
  that is too long, skips a block that is not well formed, and accepts a well-formed one.
\<close>

lemma srt_unit_raises:
  assumes "index_line_too_long lines"
  shows "srt_unit n lines = Inl Value_error_int_digits"
proof -
  from assms have two: "2 \<le> length lines" and idx: "has_index_line lines"
    and long: "max_str_digits < length (strip (hd lines))"
    by (simp_all add: index_line_too_long_def)
  note w = time_window_drop [OF two]
  from idx long w(2,3) show ?thesis
    using two by (simp add: srt_unit_def py_int_long)
qed

lemma srt_unit_index:
  assumes "2 \<le> length lines" and "\<not> index_line_too_long lines"
  shows "(if is_numeric (strip (lines ! 0))
          then (case py_int (strip (lines ! 0)) of
                  Inl err \<Rightarrow> Inl err
                | Inr i \<Rightarrow> Inr (Some i))
          else Inr None)
         = Inr (if has_index_line lines then Some (int_of_digits (strip (hd lines))) else None)"
proof -
  note w = time_window_drop [OF assms(1)]
  show ?thesis
  proof (cases "has_index_line lines")
    case True
    with assms have "length (strip (hd lines)) \<le> max_str_digits"
      by (simp add: index_line_too_long_def)
    then have "py_int (strip (lines ! 0)) = Inr (int_of_digits (strip (hd lines)))"
      unfolding w(3) by (rule py_int_short)
    with True w(2) show ?thesis by simp
  next
    case False
    with w(2) show ?thesis by simp
  qed
qed

lemma srt_unit_skips:
  assumes "\<not> index_line_too_long lines" and "\<not> well_formed_block lines"
  shows "srt_unit n lines = Inr None"
proof (cases "length lines < 2")
  case True
  then show ?thesis by (simp add: srt_unit_def)
next
  case False
  then have two: "2 \<le> length lines" by simp
  note w = time_window_drop [OF two]
  let ?s = "if is_numeric (strip (lines ! 0)) then 1 else 0 :: nat"
  from assms(2) two have "\<forall>ln \<in> set (time_window lines). \<not> contains arrow ln"
    by (simp add: well_formed_block_def list_ex_iff)
  then have "\<forall>ln \<in> (\<lambda>i. lines ! i) ` set [?s ..< min (?s + 2) (length lines)]. \<not> contains arrow ln"
    unfolding w(1) by (simp only: window_indices [of lines ?s])
  then have "\<forall>i \<in> set [?s ..< min (?s + 2) (length lines)]. \<not> contains arrow (lines ! i)"
    by (simp only: ball_simps)
  then have none: "find_time_line lines [?s ..< min (?s + 2) (length lines)] = None"
    by (simp only: find_time_line_None)
  show ?thesis
    unfolding srt_unit_def Let_def srt_unit_index [OF two assms(1)]
    using False none by simp
qed

lemma srt_unit_accepts:
  assumes "\<not> index_line_too_long lines" and "well_formed_block lines"
  shows "\<exists>u. srt_unit n lines = Inr (Some u) \<and> time u \<noteq> [] \<and> tr u = []
           \<and> (if has_index_line lines
               then py_int (strip (hd lines)) = Inr (index u)
               else index u = n + 1)
           \<and> (\<exists>ln \<in> set (time_window lines). contains arrow ln \<and> time u = strip ln)"
proof -
  from assms(2) have two: "2 \<le> length lines"
    and win: "\<exists>ln \<in> set (time_window lines). contains arrow ln"
    by (simp_all add: well_formed_block_def list_ex_iff)
  note w = time_window_drop [OF two]
  let ?s = "if is_numeric (strip (lines ! 0)) then 1 else 0 :: nat"
  let ?ixs = "[?s ..< min (?s + 2) (length lines)]"
  from win have "\<exists>ln \<in> (\<lambda>i. lines ! i) ` set ?ixs. contains arrow ln"
    unfolding w(1) by (simp only: window_indices [of lines ?s])
  then have "\<exists>i \<in> set ?ixs. contains arrow (lines ! i)"
    by (simp only: bex_simps)
  then have "find_time_line lines ?ixs \<noteq> None"
    by (simp only: find_time_line_None not_all not_not bex_simps ball_simps)
  then obtain t s where f: "find_time_line lines ?ixs = Some (t, s)" by auto
  from find_time_line_Some [OF f] obtain i
    where i: "i \<in> set ?ixs" "contains arrow (lines ! i)" "t = strip (lines ! i)"
    by blast
  then have t: "t \<noteq> []" using arrow_not_blank by simp
  from i(1) have "lines ! i \<in> (\<lambda>i. lines ! i) ` set ?ixs" by (rule imageI)
  then have "lines ! i \<in> set (time_window lines)"
    unfolding w(1) by (simp only: window_indices [of lines ?s])
  with i have line: "\<exists>ln \<in> set (time_window lines). contains arrow ln \<and> t = strip ln"
    by blast
  let ?u = "\<lparr>index = (case (if has_index_line lines
                               then Some (int_of_digits (strip (hd lines))) else None) of
                         None \<Rightarrow> n + 1 | Some i \<Rightarrow> i),
              time = t, src = strip (join [SP] (map strip (drop s lines))), tr = []\<rparr>"
  have u: "srt_unit n lines = Inr (Some ?u)"
    unfolding srt_unit_def Let_def srt_unit_index [OF two assms(1)]
    using two f by simp
  have idx: "if has_index_line lines
             then py_int (strip (hd lines)) = Inr (index ?u)
             else index ?u = n + 1"
  proof (cases "has_index_line lines")
    case True
    with assms(1) two have "length (strip (hd lines)) \<le> max_str_digits"
      by (simp add: index_line_too_long_def)
    then have "py_int (strip (hd lines)) = Inr (int_of_digits (strip (hd lines)))"
      by (rule py_int_short)
    with True show ?thesis by simp
  next
    case False
    then show ?thesis by simp
  qed
  have "time ?u \<noteq> [] \<and> tr ?u = []" using t by simp
  moreover have "\<exists>ln \<in> set (time_window lines). contains arrow ln \<and> time ?u = strip ln"
    using line by simp
  ultimately show ?thesis using u idx by blast
qed

lemma parse_srt_block_raises:
  "index_line_too_long (block_lines b) \<Longrightarrow> parse_srt_block acc b = Inl Value_error_int_digits"
  by (simp add: parse_srt_block_def srt_unit_raises)

lemma parse_srt_block_skips:
  "\<not> index_line_too_long (block_lines b) \<Longrightarrow> \<not> well_formed_block (block_lines b)
     \<Longrightarrow> parse_srt_block acc b = Inr acc"
  by (simp add: parse_srt_block_def srt_unit_skips)

lemma parse_srt_block_accepts:
  assumes "\<not> index_line_too_long (block_lines b)" and "well_formed_block (block_lines b)"
  shows "\<exists>u. parse_srt_block acc b = Inr (acc @ [u])
           \<and> srt_unit (length acc) (block_lines b) = Inr (Some u)"
proof -
  from srt_unit_accepts [OF assms, of "length acc"] obtain u
    where "srt_unit (length acc) (block_lines b) = Inr (Some u)" by blast
  then show ?thesis by (simp add: parse_srt_block_def)
qed

lemma parse_srt_blocks_raises:
  assumes "\<exists>b \<in> set bs. index_line_too_long (block_lines b)"
  shows "parse_srt_blocks bs acc = Inl Value_error_int_digits"
proof -
  from assms obtain b where b: "b \<in> set bs" "index_line_too_long (block_lines b)" by blast
  have any: "parse_srt_block s y = Inl Value_error_int_digits \<or> (\<exists>s'. parse_srt_block s y = Inr s')"
    for s y
  proof (cases "index_line_too_long (block_lines y)")
    case True
    then show ?thesis by (simp add: parse_srt_block_raises)
  next
    case False
    then show ?thesis
      using parse_srt_block_skips [OF False, of s] parse_srt_block_accepts [OF False, of s]
      by (cases "well_formed_block (block_lines y)") auto
  qed
  show ?thesis
    unfolding parse_srt_blocks_def
    by (rule for_each_raises [where body = "\<lambda>b acc. parse_srt_block acc b", OF b(1)])
      (use b(2) any in \<open>auto simp: parse_srt_block_raises\<close>)
qed

text \<open>
  When no index line is too long the loop appends one unit for every well-formed block,
  in the order of the blocks: the unit at position \<open>k\<close> of the new ones is the unit of the
  well-formed block at position \<open>k\<close>, made when \<open>k\<close> more units had been accepted.
\<close>

lemma parse_srt_blocks_units:
  assumes "\<forall>b \<in> set bs. \<not> index_line_too_long (block_lines b)"
  shows "\<exists>new. parse_srt_blocks bs acc = Inr (acc @ new)
           \<and> length new = length (filter (\<lambda>b. well_formed_block (block_lines b)) bs)
           \<and> (\<forall>k < length new.
                 srt_unit (length acc + k)
                   (block_lines (filter (\<lambda>b. well_formed_block (block_lines b)) bs ! k))
                 = Inr (Some (new ! k)))"
  using assms
proof (induction bs arbitrary: acc)
  case Nil
  then show ?case by (simp add: parse_srt_blocks_Nil)
next
  case (Cons b bs)
  let ?wf = "\<lambda>b. well_formed_block (block_lines b)"
  from Cons.prems have short: "\<not> index_line_too_long (block_lines b)"
    and rest: "\<forall>b \<in> set bs. \<not> index_line_too_long (block_lines b)"
    by simp_all
  show ?case
  proof (cases "?wf b")
    case False
    from Cons.IH [OF rest, of acc] obtain new
      where new: "parse_srt_blocks bs acc = Inr (acc @ new)"
        "length new = length (filter ?wf bs)"
        "\<forall>k < length new. srt_unit (length acc + k) (block_lines (filter ?wf bs ! k))
                             = Inr (Some (new ! k))"
      by blast
    have "parse_srt_blocks (b # bs) acc = Inr (acc @ new)"
      using parse_srt_block_skips [OF short False, of acc] new(1)
      by (simp add: parse_srt_blocks_Cons)
    then show ?thesis using new(2,3) False by auto
  next
    case True
    from parse_srt_block_accepts [OF short True, of acc] obtain u
      where u: "parse_srt_block acc b = Inr (acc @ [u])"
        "srt_unit (length acc) (block_lines b) = Inr (Some u)"
      by blast
    from Cons.IH [OF rest, of "acc @ [u]"] obtain new
      where new: "parse_srt_blocks bs (acc @ [u]) = Inr ((acc @ [u]) @ new)"
        "length new = length (filter ?wf bs)"
        "\<forall>k < length new. srt_unit (length (acc @ [u]) + k) (block_lines (filter ?wf bs ! k))
                             = Inr (Some (new ! k))"
      by blast
    have run: "parse_srt_blocks (b # bs) acc = Inr (acc @ u # new)"
      using u(1) new(1) by (simp add: parse_srt_blocks_Cons)
    have len: "length (u # new) = length (filter ?wf (b # bs))"
      using new(2) True by simp
    have each: "\<forall>k < length (u # new).
                  srt_unit (length acc + k) (block_lines (filter ?wf (b # bs) ! k))
                  = Inr (Some ((u # new) ! k))"
    proof (intro allI impI)
      fix k assume k: "k < length (u # new)"
      show "srt_unit (length acc + k) (block_lines (filter ?wf (b # bs) ! k))
              = Inr (Some ((u # new) ! k))"
      proof (cases k)
        case 0
        then show ?thesis using u(2) True by simp
      next
        case (Suc j)
        with k have "j < length new" by simp
        with new(3) have "srt_unit (length (acc @ [u]) + j) (block_lines (filter ?wf bs ! j))
                            = Inr (Some (new ! j))"
          by blast
        then show ?thesis using Suc True by simp
      qed
    qed
    from run len each show ?thesis by blast
  qed
qed

lemma parse_srt_blocks_extends:
  assumes "\<forall>b \<in> set bs. \<not> index_line_too_long (block_lines b)"
  shows "\<exists>new. parse_srt_blocks bs acc = Inr (acc @ new) \<and> length new \<le> length bs"
proof -
  from parse_srt_blocks_units [OF assms, of acc] obtain new
    where "parse_srt_blocks bs acc = Inr (acc @ new)"
      "length new = length (filter (\<lambda>b. well_formed_block (block_lines b)) bs)"
    by blast
  then show ?thesis by (metis length_filter_le)
qed

text \<open>A block whose index line has more digits than \<open>int\<close> converts.\<close>

lemma re_split_blank_nonempty: "re_split_blank t \<noteq> []"
  by (cases t) (simp_all add: Let_def split: option.splits)

lemma re_split_blank_prefix:
  "NL \<notin> set s \<Longrightarrow>
   re_split_blank (s @ t) = (s @ hd (re_split_blank t)) # tl (re_split_blank t)"
proof (induction s)
  case Nil
  then show ?case using re_split_blank_nonempty [of t] by simp
next
  case (Cons c s)
  then have "match_blank_sep (c # s @ t) = None" by (simp add: match_blank_sep_def)
  then show ?case using Cons by (simp add: Let_def)
qed

lemma long_index_line:
  assumes "max_str_digits < n"
  shows "srt_blocks (replicate n 49 @ NL # str_of ''a-->b'' @ NL # str_of ''x'')
           = [replicate n 49 @ NL # str_of ''a-->b'' @ NL # str_of ''x'']"
    and "index_line_too_long
           (block_lines (replicate n 49 @ NL # str_of ''a-->b'' @ NL # str_of ''x''))"
    and "well_formed_block
           (block_lines (replicate n 49 @ NL # str_of ''a-->b'' @ NL # str_of ''x''))"
proof -
  let ?s = "replicate n 49 :: str"
  let ?t = "NL # str_of ''a-->b'' @ NL # str_of ''x''"
  from assms have n: "0 < n" by simp
  have cr: "CR \<notin> set (?s @ ?t)" by (simp add: str_of_def)
  have nl: "NL \<notin> set ?s" by simp
  have st: "strip (?s @ ?t) = ?s @ ?t"
    by (rule ones_then_text [OF n]) (simp add: isspace_def str_of_def)
  have "re_split_blank ?t = [?t]"
    by (simp add: match_blank_sep_def text_eval)
  then have "re_split_blank (?s @ ?t) = [?s @ ?t]"
    by (simp add: re_split_blank_prefix [OF nl])
  then show "srt_blocks (?s @ ?t) = [?s @ ?t]"
    by (simp add: srt_blocks_def normalize_newlines_id [OF cr] st)
  have "split_on NL (?s @ ?t) = ?s # split_on NL (str_of ''a-->b'' @ NL # str_of ''x'')"
    by (rule split_on_cut [OF nl])
  also have "\<dots> = [?s, str_of ''a-->b'', str_of ''x'']"
    by (simp add: str_of_def)
  finally have parts: "split_on NL (?s @ ?t) = [?s, str_of ''a-->b'', str_of ''x'']" .
  have keep: "strip_chars (\<lambda>c. c = NL) ?s = ?s"
    by (rule strip_chars_free) simp
  have bl: "block_lines (?s @ ?t) = [?s, str_of ''a-->b'', str_of ''x'']"
    unfolding block_lines_def parts using n
    by (simp add: keep strip_chars_def lstrip_chars_def rstrip_chars_def str_of_def)
  then show "index_line_too_long (block_lines (?s @ ?t))"
    using assms ones_numeric [OF n]
    by (simp add: index_line_too_long_def has_index_line_def ones_strip)
  show "well_formed_block (block_lines (?s @ ?t))"
    unfolding bl using ones_numeric [OF n]
    by (simp add: well_formed_block_def time_window_def has_index_line_def ones_strip
          arrow_def str_of_def)
qed

lemmas srt_eval =
  srt_blocks_def normalize_newlines_def replace1_def match_blank_sep_def block_lines_def
  time_window_def has_index_line_def well_formed_block_def index_line_too_long_def
  is_numeric_def isdecimal_def decimal_value_def digit_zeros_def int_of_digits_def
  py_int_def max_str_digits_def arrow_def

text \<open>
  Claim C9. Let the blocks of a SubRip text be cut as the parser cuts them, and take any
  block. The parser returns its units unless the index line of some block of at least two
  lines has more digits than \<open>int\<close> converts, in which case it raises. If none of the
  first two lines after the optional index line of the block holds the arrow, the block
  contributes no unit: the parser returns what it returns for the other blocks alone. If
  the block is well formed and has no leading line of digits, its unit comes right after
  the units accepted from the blocks before it, and its index is their number plus one;
  that number counts accepted units only (it is at most the number of earlier blocks).
\<close>

theorem srt_implicit_numbering:
  assumes blocks: "srt_blocks text = pre @ b # post"
  shows "if \<exists>blk \<in> set (srt_blocks text). index_line_too_long (block_lines blk)
         then parse_srt text = Inl Value_error_int_digits
         else \<exists>units before.
                parse_srt text = Inr units
              \<and> parse_srt_blocks pre [] = Inr before
              \<and> length before \<le> length pre
              \<and> ((\<forall>ln \<in> set (time_window (block_lines b)). \<not> contains arrow ln)
                    \<longrightarrow> parse_srt_blocks (pre @ post) [] = Inr units)
              \<and> (well_formed_block (block_lines b) \<and> \<not> has_index_line (block_lines b)
                    \<longrightarrow> length before < length units
                      \<and> take (length before) units = before
                      \<and> index (units ! length before) = length before + 1)"
proof (cases "\<exists>blk \<in> set (srt_blocks text). index_line_too_long (block_lines blk)")
  case True
  then have "parse_srt text = Inl Value_error_int_digits"
    unfolding parse_srt_as_loop by (rule parse_srt_blocks_raises)
  with True show ?thesis by (simp only: if_True)
next
  case False
  then have ok_pre: "\<forall>blk \<in> set pre. \<not> index_line_too_long (block_lines blk)"
    and ok_b: "\<not> index_line_too_long (block_lines b)"
    and ok_post: "\<forall>blk \<in> set post. \<not> index_line_too_long (block_lines blk)"
    unfolding blocks by simp_all
  from parse_srt_blocks_extends [OF ok_pre, of "[]"] obtain before
    where before: "parse_srt_blocks pre [] = Inr before" "length before \<le> length pre"
    by auto
  have all: "parse_srt text
               = (case parse_srt_block before b of
                    Inl err \<Rightarrow> Inl err
                  | Inr r \<Rightarrow> parse_srt_blocks post r)"
    by (simp add: parse_srt_as_loop blocks parse_srt_blocks_append parse_srt_blocks_Cons before(1))
  obtain one where one: "parse_srt_block before b = Inr (before @ one)"
    using parse_srt_block_skips [OF ok_b, of before] parse_srt_block_accepts [OF ok_b, of before]
    by (cases "well_formed_block (block_lines b)") auto
  from parse_srt_blocks_extends [OF ok_post, of "before @ one"] obtain new
    where new: "parse_srt_blocks post (before @ one) = Inr ((before @ one) @ new)"
    by blast
  define units where "units = (before @ one) @ new"
  have res: "parse_srt text = Inr units"
    unfolding all one units_def using new by simp
  have skip: "parse_srt_blocks (pre @ post) [] = Inr units"
    if "\<forall>ln \<in> set (time_window (block_lines b)). \<not> contains arrow ln"
  proof -
    from that have "\<not> well_formed_block (block_lines b)"
      by (simp add: well_formed_block_def list_ex_iff)
    from parse_srt_block_skips [OF ok_b this, of before] one have "one = []" by simp
    then show ?thesis
      using new by (simp add: parse_srt_blocks_append before(1) units_def)
  qed
  have number: "length before < length units \<and> take (length before) units = before
                  \<and> index (units ! length before) = length before + 1"
    if wf: "well_formed_block (block_lines b) \<and> \<not> has_index_line (block_lines b)"
  proof -
    from wf have w: "well_formed_block (block_lines b)"
      and no: "\<not> has_index_line (block_lines b)" by simp_all
    from srt_unit_accepts [OF ok_b w, of "length before"] no obtain u
      where u: "srt_unit (length before) (block_lines b) = Inr (Some u)"
        "index u = length before + 1"
      by auto
    then have "parse_srt_block before b = Inr (before @ [u])"
      by (simp add: parse_srt_block_def)
    with one have "one = [u]" by simp
    then have "units = before @ u # new" by (simp add: units_def)
    then show ?thesis using u(2) by simp
  qed
  from False res before skip number show ?thesis
    by (simp only: if_False) blast
qed

theorem srt_implicit_numbering_witness:
  "srt_blocks (str_of ''a-->b'' @ NL # str_of ''H'' @ NL # NL # str_of ''z'' @ NL # NL # str_of ''c-->d'' @ NL # str_of ''B'')
     = [str_of ''a-->b'' @ NL # str_of ''H'', str_of ''z'', str_of ''c-->d'' @ NL # str_of ''B'']
   \<and> (\<exists>units. parse_srt (str_of ''a-->b'' @ NL # str_of ''H'' @ NL # NL # str_of ''z'' @ NL # NL # str_of ''c-->d'' @ NL # str_of ''B'') = Inr units
         \<and> parse_srt_blocks [str_of ''a-->b'' @ NL # str_of ''H'',
                             str_of ''c-->d'' @ NL # str_of ''B''] [] = Inr units
         \<and> index (units ! 1) = 2)
   \<and> index_line_too_long
        (block_lines (replicate 4301 49 @ NL # str_of ''a-->b'' @ NL # str_of ''x''))
   \<and> parse_srt (replicate 4301 49 @ NL # str_of ''a-->b'' @ NL # str_of ''x'')
     = Inl Value_error_int_digits"
proof -
  have n: "max_str_digits < 4301" by (simp add: max_str_digits_def)
  note long = long_index_line [OF n]
  have one: "srt_blocks (replicate 4301 49 @ NL # str_of ''a-->b'' @ NL # str_of ''x'')
               = [] @ (replicate 4301 49 @ NL # str_of ''a-->b'' @ NL # str_of ''x'') # []"
    by (simp only: long(1) append_Nil)
  have "\<exists>blk \<in> set (srt_blocks (replicate 4301 49 @ NL # str_of ''a-->b'' @ NL # str_of ''x'')).
          index_line_too_long (block_lines blk)"
  proof (rule bexI)
    show "index_line_too_long
            (block_lines (replicate 4301 49 @ NL # str_of ''a-->b'' @ NL # str_of ''x''))"
      by (rule long(2))
    show "replicate 4301 49 @ NL # str_of ''a-->b'' @ NL # str_of ''x''
            \<in> set (srt_blocks (replicate 4301 49 @ NL # str_of ''a-->b'' @ NL # str_of ''x''))"
      by (simp only: long(1) list.set_intros)
  qed
  note raises = srt_implicit_numbering [OF one, unfolded if_P [OF this]]
  let ?T = "str_of ''a-->b'' @ NL # str_of ''H'' @ NL # NL # str_of ''z'' @ NL # NL # str_of ''c-->d'' @ NL # str_of ''B''"
  let ?b0 = "str_of ''a-->b'' @ NL # str_of ''H''"
  let ?b1 = "str_of ''z''"
  let ?b2 = "str_of ''c-->d'' @ NL # str_of ''B''"
  have blocks: "srt_blocks ?T = [?b0, ?b1, ?b2]"
    by (simp add: srt_eval text_eval)
  have blocks1: "srt_blocks ?T = [?b0] @ ?b1 # [?b2]"
    and blocks2: "srt_blocks ?T = [?b0, ?b1] @ ?b2 # []"
    unfolding blocks by simp_all
  have short: "\<not> (\<exists>blk \<in> set (srt_blocks ?T). index_line_too_long (block_lines blk))"
    unfolding blocks by (simp add: srt_eval text_eval)
  have none: "\<forall>ln \<in> set (time_window (block_lines ?b1)). \<not> contains arrow ln"
    by (simp add: srt_eval text_eval)
  have wf: "well_formed_block (block_lines ?b2) \<and> \<not> has_index_line (block_lines ?b2)"
    by (simp add: srt_eval text_eval)
  have pre: "parse_srt_blocks [?b0, ?b1] []
               = Inr [\<lparr>index = 1, time = str_of ''a-->b'', src = str_of ''H'', tr = []\<rparr>]"
    by (simp add: parse_srt_blocks_def parse_srt_block_def srt_unit_def srt_eval text_eval)
  from srt_implicit_numbering [OF blocks1] short obtain units
    where units: "parse_srt ?T = Inr units"
      and skip: "(\<forall>ln \<in> set (time_window (block_lines ?b1)). \<not> contains arrow ln)
                   \<longrightarrow> parse_srt_blocks ([?b0] @ [?b2]) [] = Inr units"
    by (simp only: if_False) blast
  from srt_implicit_numbering [OF blocks2] short obtain units' before
    where units': "parse_srt ?T = Inr units'"
      and before: "parse_srt_blocks [?b0, ?b1] [] = Inr before"
      and number: "well_formed_block (block_lines ?b2) \<and> \<not> has_index_line (block_lines ?b2)
                    \<longrightarrow> length before < length units'
                      \<and> take (length before) units' = before
                      \<and> index (units' ! length before) = length before + 1"
    by (simp only: if_False) blast
  from units units' have same: "units' = units" by simp
  from before pre have b: "before = [\<lparr>index = 1, time = str_of ''a-->b'', src = str_of ''H'', tr = []\<rparr>]"
    by simp
  have c2: "parse_srt_blocks [?b0, ?b2] [] = Inr units"
    using skip none by simp
  have c3: "index (units ! 1) = 2"
    using number wf unfolding same b by simp
  from blocks units c2 c3 long(2) raises show ?thesis by blast
qed

subsection \<open>Where the arrow of a block sits in the text\<close>

lemma contains_Nil: "contains [] s"
  by (cases s) simp_all

lemma startswith_append: "startswith s p \<Longrightarrow> startswith (s @ b) p"
  by (induction s p rule: startswith.induct) simp_all

lemma contains_append_right: "contains p s \<Longrightarrow> contains p (s @ b)"
proof (induction s)
  case Nil
  then show ?case by (simp add: contains_Nil)
next
  case (Cons c s)
  then show ?case using startswith_append [of "c # s" p b] by auto
qed

lemma contains_append_left: "contains p s \<Longrightarrow> contains p (a @ s)"
  by (induction a) simp_all

lemma contains_part: "contains p s \<Longrightarrow> contains p (a @ s @ b)"
  by (simp add: contains_append_left contains_append_right)

lemma strip_chars_part: "\<exists>a b. s = a @ strip_chars q s @ b"
proof -
  let ?l = "dropWhile q s"
  have "s = takeWhile q s @ ?l" by simp
  moreover have "?l = rev (dropWhile q (rev ?l)) @ rev (takeWhile q (rev ?l))"
    by (metis rev_append rev_rev_ident takeWhile_dropWhile_id)
  ultimately have "s = takeWhile q s @ strip_chars q s @ rev (takeWhile q (rev ?l))"
    by (simp add: strip_chars_def lstrip_chars_def rstrip_chars_def)
  then show ?thesis by blast
qed

lemma split_on_hd_prefix: "\<exists>b. s = hd (split_on d s) @ b"
  by (induction s) (auto simp: Let_def)

lemma split_on_part: "l \<in> set (split_on d s) \<Longrightarrow> \<exists>a b. s = a @ l @ b"
proof (induction s arbitrary: l)
  case Nil
  then show ?case by simp
next
  case (Cons c s)
  note ne = split_on_nonempty [of d s]
  have tail: "\<exists>a b. c # s = a @ l @ b" if "l \<in> set (split_on d s)"
  proof -
    from Cons.IH [OF that] obtain a b where "s = a @ l @ b" by blast
    then have "c # s = (c # a) @ l @ b" by simp
    then show ?thesis by blast
  qed
  show ?case
  proof (cases "c = d")
    case True
    with Cons.prems have "l = [] \<or> l \<in> set (split_on d s)" by simp
    then show ?thesis
    proof
      assume "l = []"
      then have "c # s = [] @ l @ (c # s)" by simp
      then show ?thesis by blast
    next
      assume "l \<in> set (split_on d s)"
      then show ?thesis by (rule tail)
    qed
  next
    case False
    with Cons.prems have "l = c # hd (split_on d s) \<or> l \<in> set (tl (split_on d s))"
      by (simp add: Let_def)
    then show ?thesis
    proof
      assume l: "l = c # hd (split_on d s)"
      from split_on_hd_prefix [of s d] obtain b where "s = hd (split_on d s) @ b" by blast
      then have "c # s = [] @ l @ b" using l by simp
      then show ?thesis by blast
    next
      assume "l \<in> set (tl (split_on d s))"
      then have "l \<in> set (split_on d s)" using ne by (metis list.set_sel(2))
      then show ?thesis by (rule tail)
    qed
  qed
qed

lemma match_blank_sep_suffix:
  assumes "match_blank_sep t = Some rest"
  shows "\<exists>a. t = a @ rest"
proof -
  from assms obtain cs where t: "t = NL # cs"
    and r: "rest = rev (takeWhile (\<lambda>x. x \<noteq> NL) (rev (takeWhile isspace cs))) @ dropWhile isspace cs"
    by (auto simp: match_blank_sep_def Let_def split: list.splits if_splits)
  let ?run = "takeWhile isspace cs"
  have "?run = rev (dropWhile (\<lambda>x. x \<noteq> NL) (rev ?run)) @ rev (takeWhile (\<lambda>x. x \<noteq> NL) (rev ?run))"
    by (metis rev_append rev_rev_ident takeWhile_dropWhile_id)
  moreover have "cs = ?run @ dropWhile isspace cs" by simp
  ultimately have "cs = rev (dropWhile (\<lambda>x. x \<noteq> NL) (rev ?run)) @ rest"
    using r by (metis append.assoc)
  then have "t = (NL # rev (dropWhile (\<lambda>x. x \<noteq> NL) (rev ?run))) @ rest" using t by simp
  then show ?thesis by blast
qed

lemma re_split_blank_hd_prefix: "\<exists>b. t = hd (re_split_blank t) @ b"
proof (induction t)
  case Nil
  then show ?case by simp
next
  case (Cons c cs)
  then show ?case by (cases "match_blank_sep (c # cs)") (auto simp: Let_def)
qed

lemma re_split_blank_part: "blk \<in> set (re_split_blank t) \<Longrightarrow> \<exists>a b. t = a @ blk @ b"
proof (induction t arbitrary: blk rule: re_split_blank.induct)
  case 1
  then show ?case by simp
next
  case (2 c cs)
  show ?case
  proof (cases "match_blank_sep (c # cs)")
    case (Some rest)
    with "2.prems" have "blk = [] \<or> blk \<in> set (re_split_blank rest)" by simp
    then show ?thesis
    proof
      assume "blk = []"
      then have "c # cs = [] @ blk @ (c # cs)" by simp
      then show ?thesis by blast
    next
      assume "blk \<in> set (re_split_blank rest)"
      from "2.IH"(2) [OF Some this] obtain a b where "rest = a @ blk @ b" by blast
      moreover from match_blank_sep_suffix [OF Some] obtain a' where "c # cs = a' @ rest" by blast
      ultimately have "c # cs = (a' @ a) @ blk @ b" by simp
      then show ?thesis by blast
    qed
  next
    case None
    note ne = re_split_blank_nonempty [of cs]
    from None "2.prems" have "blk = c # hd (re_split_blank cs) \<or> blk \<in> set (tl (re_split_blank cs))"
      by (simp add: Let_def)
    then show ?thesis
    proof
      assume l: "blk = c # hd (re_split_blank cs)"
      from re_split_blank_hd_prefix [of cs] obtain b where "cs = hd (re_split_blank cs) @ b" by blast
      then have "c # cs = [] @ blk @ b" using l by simp
      then show ?thesis by blast
    next
      assume "blk \<in> set (tl (re_split_blank cs))"
      then have "blk \<in> set (re_split_blank cs)" using ne by (metis list.set_sel(2))
      from "2.IH"(1) [OF None this] obtain a b where "cs = a @ blk @ b" by blast
      then have "c # cs = (c # a) @ blk @ b" by simp
      then show ?thesis by blast
    qed
  qed
qed

lemma startswith_replace_crlf:
  "NL \<notin> set p \<Longrightarrow> startswith (replace_crlf t) p \<Longrightarrow> startswith t p"
proof (induction t arbitrary: p rule: replace_crlf.induct)
  case 1
  then show ?case by simp
next
  case (2 c)
  then show ?case by simp
next
  case (3 c d cs)
  show ?case
  proof (cases p)
    case Nil
    then show ?thesis by simp
  next
    case (Cons x xs)
    with "3.prems" have x: "x \<noteq> NL" "NL \<notin> set xs" by auto
    show ?thesis
    proof (cases "c = CR \<and> d = NL")
      case True
      with "3.prems" Cons x show ?thesis by simp
    next
      case False
      with "3.prems" Cons have "c = x" "startswith (replace_crlf (d # cs)) xs" by auto
      with "3.IH"(2) [OF False x(2)] Cons show ?thesis by simp
    qed
  qed
qed

lemma contains_replace_crlf:
  "NL \<notin> set p \<Longrightarrow> contains p (replace_crlf t) \<Longrightarrow> contains p t"
proof (induction t rule: replace_crlf.induct)
  case 1
  then show ?case by simp
next
  case (2 c)
  then show ?case by simp
next
  case (3 c d cs)
  show ?case
  proof (cases "c = CR \<and> d = NL")
    case True
    with "3.prems" have "startswith (NL # replace_crlf cs) p \<or> contains p (replace_crlf cs)"
      by simp
    then show ?thesis
    proof
      assume "startswith (NL # replace_crlf cs) p"
      with "3.prems"(1) have "p = []" by (cases p) auto
      then show ?thesis by (simp add: contains_Nil)
    next
      assume "contains p (replace_crlf cs)"
      with "3.IH"(1) [OF True "3.prems"(1)] have "contains p cs" by simp
      then show ?thesis by simp
    qed
  next
    case False
    with "3.prems"
    have "startswith (replace_crlf (c # d # cs)) p \<or> contains p (replace_crlf (d # cs))"
      by auto
    then show ?thesis
    proof
      assume "startswith (replace_crlf (c # d # cs)) p"
      from startswith_replace_crlf [OF "3.prems"(1) this] show ?thesis by simp
    next
      assume "contains p (replace_crlf (d # cs))"
      with "3.IH"(2) [OF False "3.prems"(1)] have "contains p (d # cs)" by simp
      then show ?thesis by simp
    qed
  qed
qed

lemma startswith_replace1:
  "a \<notin> set p \<Longrightarrow> b \<notin> set p \<Longrightarrow> startswith (replace1 a b s) p \<Longrightarrow> startswith s p"
proof (induction s arbitrary: p)
  case Nil
  then show ?case by (simp add: replace1_def)
next
  case (Cons c s)
  show ?case
  proof (cases p)
    case Nil
    then show ?thesis by simp
  next
    case (Cons x xs)
    with Cons.prems have "c = x" "startswith (replace1 a b s) xs"
      by (auto simp: replace1_def split: if_splits)
    with Cons.IH [of xs] Cons.prems Cons show ?thesis by simp
  qed
qed

lemma contains_replace1:
  "a \<notin> set p \<Longrightarrow> b \<notin> set p \<Longrightarrow> contains p (replace1 a b s) \<Longrightarrow> contains p s"
proof (induction s)
  case Nil
  then show ?case by (simp add: replace1_def)
next
  case (Cons c s)
  from Cons.prems(3)
  have "startswith (replace1 a b (c # s)) p \<or> contains p (replace1 a b s)"
    by (simp add: replace1_def)
  then show ?case
    using startswith_replace1 [OF Cons.prems(1,2), of "c # s"] Cons.IH [OF Cons.prems(1,2)]
    by auto
qed

lemma arrow_in_text:
  assumes "b \<in> set (srt_blocks text)" and "ln \<in> set (block_lines b)" and "contains arrow ln"
  shows "contains arrow text"
proof -
  from assms(2) obtain l where l: "l \<in> set (split_on NL b)" and ln: "ln = strip_chars (\<lambda>c. c = NL) l"
    by (auto simp: block_lines_def)
  from strip_chars_part [of l "\<lambda>c. c = NL"] assms(3) ln have "contains arrow l"
    by (metis contains_part)
  with split_on_part [OF l] have "contains arrow b" by (metis contains_part)
  moreover from assms(1) re_split_blank_part
  obtain a c where "strip (normalize_newlines text) = a @ b @ c"
    unfolding srt_blocks_def by blast
  ultimately have "contains arrow (strip (normalize_newlines text))" by (metis contains_part)
  with strip_chars_part [of "normalize_newlines text" isspace]
  have "contains arrow (normalize_newlines text)"
    unfolding strip_def by (metis contains_part)
  then have n: "contains arrow (replace1 CR NL (replace_crlf text))"
    by (simp only: normalize_newlines_def)
  have "CR \<notin> set arrow" "NL \<notin> set arrow" by (simp_all add: arrow_def)
  then have "contains arrow (replace_crlf text)"
    using n by (rule contains_replace1)
  with \<open>NL \<notin> set arrow\<close> show ?thesis
    by (rule contains_replace_crlf)
qed

subsection \<open>The units of the well-formed blocks\<close>

lemma time_window_subset: "set (time_window lines) \<subseteq> set lines"
proof -
  have "set (tl lines) \<subseteq> set lines" by (cases lines) auto
  then have "set (if has_index_line lines then tl lines else lines) \<subseteq> set lines" by simp
  moreover have "set (time_window lines)
                   \<subseteq> set (if has_index_line lines then tl lines else lines)"
    unfolding time_window_def by (rule set_take_subset)
  ultimately show ?thesis by (rule order_trans [rotated])
qed

text \<open>
  Claim C4, as amended. Take a SubRip text and its well-formed blocks: the blocks of at
  least two lines that hold, after the optional line of digits, a line with the arrow
  among the next two lines (the lines of text after it may be none). Unless the index line
  of some block of at least two lines has more digits than \<open>int\<close> converts, in which case
  it raises, \<open>parse_srt\<close> returns exactly one unit for every well-formed block and none
  for any other block, in the order of the blocks: the unit at position \<open>k\<close> has the index
  of the index line of the well-formed block at position \<open>k\<close>, or \<open>k + 1\<close> when that block
  has none, and its time range is the trimmed line with the arrow, which is not empty. The
  ascending order by index is the work of the table load: when there is a unit,
  \<open>on_parse_to_table\<close> takes the text for SubRip and stores the units sorted by index,
  each still with its time range.
\<close>

theorem srt_units_of_well_formed_blocks:
  "if \<exists>b \<in> set (srt_blocks text). index_line_too_long (block_lines b)
   then parse_srt text = Inl Value_error_int_digits
   else \<exists>units. parse_srt text = Inr units
      \<and> length units
          = length (filter (\<lambda>b. well_formed_block (block_lines b)) (srt_blocks text))
      \<and> (\<forall>k < length units.
            (let lines = block_lines
                           (filter (\<lambda>b. well_formed_block (block_lines b)) (srt_blocks text) ! k);
                 u = units ! k
             in (if has_index_line lines
                 then py_int (strip (hd lines)) = Inr (index u)
                 else index u = k + 1)
              \<and> (\<exists>ln \<in> set (time_window lines). contains arrow ln \<and> time u = strip ln)))
      \<and> (\<forall>u \<in> set units. time u \<noteq> [])
      \<and> (units \<noteq> [] \<longrightarrow>
            items (on_parse_to_table text st) = sort_key index units
          \<and> input_format (on_parse_to_table text st) = Some Srt
          \<and> sorted (map index (items (on_parse_to_table text st)))
          \<and> length (items (on_parse_to_table text st)) = length units
          \<and> (\<forall>u \<in> set (items (on_parse_to_table text st)). time u \<noteq> []))"
proof (cases "\<exists>b \<in> set (srt_blocks text). index_line_too_long (block_lines b)")
  case True
  then have "parse_srt text = Inl Value_error_int_digits"
    unfolding parse_srt_as_loop by (rule parse_srt_blocks_raises)
  with True show ?thesis by (simp only: if_True)
next
  case False
  let ?wf = "\<lambda>b. well_formed_block (block_lines b)"
  let ?good = "filter ?wf (srt_blocks text)"
  from False have ok: "\<forall>b \<in> set (srt_blocks text). \<not> index_line_too_long (block_lines b)"
    by blast
  from parse_srt_blocks_units [OF ok, of "[]"] obtain units
    where res: "parse_srt text = Inr units"
      and len: "length units = length ?good"
      and each: "\<forall>k < length units.
                   srt_unit k (block_lines (?good ! k)) = Inr (Some (units ! k))"
    by (auto simp: parse_srt_as_loop)
  have unit: "(if has_index_line (block_lines (?good ! k))
               then py_int (strip (hd (block_lines (?good ! k)))) = Inr (index (units ! k))
               else index (units ! k) = k + 1)
            \<and> (\<exists>ln \<in> set (time_window (block_lines (?good ! k))).
                  contains arrow ln \<and> time (units ! k) = strip ln)
            \<and> time (units ! k) \<noteq> []"
    if k: "k < length units" for k
  proof -
    from k len have "k < length ?good" by simp
    then have "?good ! k \<in> set ?good" by (rule nth_mem)
    then have wf: "well_formed_block (block_lines (?good ! k))"
      and short: "\<not> index_line_too_long (block_lines (?good ! k))"
      using ok by auto
    from srt_unit_accepts [OF short wf, of k] each k show ?thesis by auto
  qed
  have times: "\<forall>u \<in> set units. time u \<noteq> []"
  proof
    fix u assume "u \<in> set units"
    then obtain k where "k < length units" "u = units ! k" by (metis in_set_conv_nth)
    with unit [of k] show "time u \<noteq> []" by simp
  qed
  have table: "items (on_parse_to_table text st) = sort_key index units
          \<and> input_format (on_parse_to_table text st) = Some Srt
          \<and> sorted (map index (items (on_parse_to_table text st)))
          \<and> length (items (on_parse_to_table text st)) = length units
          \<and> (\<forall>u \<in> set (items (on_parse_to_table text st)). time u \<noteq> [])"
    if ne: "units \<noteq> []"
  proof -
    from ne len have "?good \<noteq> []" by auto
    then obtain b where "b \<in> set ?good" by (metis hd_in_set)
    then have b: "b \<in> set (srt_blocks text)" "well_formed_block (block_lines b)"
      by simp_all
    then obtain ln where "ln \<in> set (time_window (block_lines b))" "contains arrow ln"
      by (auto simp: well_formed_block_def list_ex_iff)
    with time_window_subset [of "block_lines b"] have "contains arrow text"
      using arrow_in_text [OF b(1)] by blast
    then have det: "detect_and_parse_subtitles text = Inr (units, Srt)"
      using ne res by (simp add: detect_and_parse_subtitles_def)
    have tab: "items (on_parse_to_table text st) = sort_key index units"
      and fmt: "input_format (on_parse_to_table text st) = Some Srt"
      using ne by (simp_all add: on_parse_to_table_def det)
    have "\<forall>u \<in> set (sort_key index units). time u \<noteq> []"
      using times by simp
    then show ?thesis using tab fmt by simp
  qed
  have rows: "\<forall>k < length units.
            (let lines = block_lines (?good ! k); u = units ! k
             in (if has_index_line lines
                 then py_int (strip (hd lines)) = Inr (index u)
                 else index u = k + 1)
              \<and> (\<exists>ln \<in> set (time_window lines). contains arrow ln \<and> time u = strip ln))"
    unfolding Let_def using unit by blast
  have stored: "units \<noteq> [] \<longrightarrow>
            items (on_parse_to_table text st) = sort_key index units
          \<and> input_format (on_parse_to_table text st) = Some Srt
          \<and> sorted (map index (items (on_parse_to_table text st)))
          \<and> length (items (on_parse_to_table text st)) = length units
          \<and> (\<forall>u \<in> set (items (on_parse_to_table text st)). time u \<noteq> [])"
    using table by (rule impI)
  show ?thesis
    unfolding if_not_P [OF False]
    by (rule exI [of _ units]) (intro conjI, (rule res len rows times stored)+)
qed

theorem srt_units_of_well_formed_blocks_witness:
  "srt_blocks (str_of ''2'' @ NL # str_of ''a-->b'' @ NL # str_of ''x'' @ NL # NL # str_of ''junk'' @ NL # NL # str_of ''1'' @ NL # str_of ''c-->d'')
     = [str_of ''2'' @ NL # str_of ''a-->b'' @ NL # str_of ''x'', str_of ''junk'',
        str_of ''1'' @ NL # str_of ''c-->d'']
   \<and> filter (\<lambda>b. well_formed_block (block_lines b))
        [str_of ''2'' @ NL # str_of ''a-->b'' @ NL # str_of ''x'', str_of ''junk'',
         str_of ''1'' @ NL # str_of ''c-->d'']
     = [str_of ''2'' @ NL # str_of ''a-->b'' @ NL # str_of ''x'',
        str_of ''1'' @ NL # str_of ''c-->d'']
   \<and> (\<exists>units. parse_srt (str_of ''2'' @ NL # str_of ''a-->b'' @ NL # str_of ''x'' @ NL # NL # str_of ''junk'' @ NL # NL # str_of ''1'' @ NL # str_of ''c-->d'') = Inr units
         \<and> length units = 2
         \<and> map index units = [2, 1]
         \<and> items (on_parse_to_table (str_of ''2'' @ NL # str_of ''a-->b'' @ NL # str_of ''x'' @ NL # NL # str_of ''junk'' @ NL # NL # str_of ''1'' @ NL # str_of ''c-->d'')
              \<lparr>items = [], input_format = None, status_var = Msg_ready, log_text = [],
                error_boxes = [], stop_flag = False, worker_thread = False\<rparr>)
           = sort_key index units
         \<and> map index (sort_key index units) = [1, 2])"
proof -
  let ?T = "str_of ''2'' @ NL # str_of ''a-->b'' @ NL # str_of ''x'' @ NL # NL # str_of ''junk'' @ NL # NL # str_of ''1'' @ NL # str_of ''c-->d''"
  let ?b0 = "str_of ''2'' @ NL # str_of ''a-->b'' @ NL # str_of ''x''"
  let ?b1 = "str_of ''junk''"
  let ?b2 = "str_of ''1'' @ NL # str_of ''c-->d''"
  let ?st = "\<lparr>items = [], input_format = None, status_var = Msg_ready, log_text = [],
          error_boxes = [], stop_flag = False, worker_thread = False\<rparr>"
  have blocks: "srt_blocks ?T = [?b0, ?b1, ?b2]"
    by (simp add: srt_eval text_eval)
  have good: "filter (\<lambda>b. well_formed_block (block_lines b)) [?b0, ?b1, ?b2] = [?b0, ?b2]"
    by (simp add: srt_eval text_eval)
  have short: "\<not> (\<exists>b \<in> set (srt_blocks ?T). index_line_too_long (block_lines b))"
    unfolding blocks by (simp add: srt_eval text_eval)
  have ev: "parse_srt ?T = Inr [\<lparr>index = 2, time = str_of ''a-->b'', src = str_of ''x'', tr = []\<rparr>,
                                \<lparr>index = 1, time = str_of ''c-->d'', src = [], tr = []\<rparr>]"
    unfolding parse_srt_as_loop blocks
    by (simp add: parse_srt_blocks_def parse_srt_block_def srt_unit_def srt_eval text_eval)
  note run = srt_units_of_well_formed_blocks [of ?T ?st, unfolded if_not_P [OF short]]
  have "\<exists>units. parse_srt ?T = Inr units
      \<and> length units
          = length (filter (\<lambda>b. well_formed_block (block_lines b)) (srt_blocks ?T))
      \<and> (units \<noteq> [] \<longrightarrow>
            items (on_parse_to_table ?T ?st) = sort_key index units
          \<and> input_format (on_parse_to_table ?T ?st) = Some Srt
          \<and> sorted (map index (items (on_parse_to_table ?T ?st)))
          \<and> length (items (on_parse_to_table ?T ?st)) = length units
          \<and> (\<forall>u \<in> set (items (on_parse_to_table ?T ?st)). time u \<noteq> []))"
    using run by (elim exE conjE) (intro exI conjI, assumption+)
  then obtain units
    where res: "parse_srt ?T = Inr units"
      and len: "length units
                  = length (filter (\<lambda>b. well_formed_block (block_lines b)) (srt_blocks ?T))"
      and stored: "units \<noteq> [] \<longrightarrow>
            items (on_parse_to_table ?T ?st) = sort_key index units
          \<and> input_format (on_parse_to_table ?T ?st) = Some Srt
          \<and> sorted (map index (items (on_parse_to_table ?T ?st)))
          \<and> length (items (on_parse_to_table ?T ?st)) = length units
          \<and> (\<forall>u \<in> set (items (on_parse_to_table ?T ?st)). time u \<noteq> [])"
    by (elim exE conjE)
  from len have l2: "length units = 2" unfolding blocks good by simp
  then have "units \<noteq> []" by auto
  with stored have tab: "items (on_parse_to_table ?T ?st) = sort_key index units" by blast
  from res ev have u: "units = [\<lparr>index = 2, time = str_of ''a-->b'', src = str_of ''x'', tr = []\<rparr>,
                                \<lparr>index = 1, time = str_of ''c-->d'', src = [], tr = []\<rparr>]"
    by simp
  have ix: "map index units = [2, 1]" and sx: "map index (sort_key index units) = [1, 2]"
    unfolding u by simp_all
  show ?thesis
    by (intro conjI exI [of _ units]) (rule blocks good res l2 ix tab sx)+
qed

text \<open>
  The claim as stated has the parser return the units sorted by index, one for every
  block with a time line. For two well-formed blocks numbered 2 and 1 in this order,
  \<open>parse_srt\<close> returns the units as the blocks stand. A block that is a time line and
  nothing else gives no unit: the parser passes over every block of fewer than two lines.
  And for a well-formed block whose index line has 4301 digits the parser returns no
  units at all: it raises.
\<close>

theorem parse_srt_keeps_block_order_counterexample:
  "map (\<lambda>b. well_formed_block (block_lines b))
       (srt_blocks (str_of ''2'' @ NL # str_of ''a-->b'' @ NL # str_of ''x'' @ NL # NL # str_of ''1'' @ NL # str_of ''c-->d'' @ NL # str_of ''y''))
     = [True, True]
   \<and> parse_srt (str_of ''2'' @ NL # str_of ''a-->b'' @ NL # str_of ''x'' @ NL # NL # str_of ''1'' @ NL # str_of ''c-->d'' @ NL # str_of ''y'')
     = Inr [\<lparr>index = 2, time = str_of ''a-->b'', src = str_of ''x'', tr = []\<rparr>,
            \<lparr>index = 1, time = str_of ''c-->d'', src = str_of ''y'', tr = []\<rparr>]
   \<and> \<not> sorted (map index [\<lparr>index = 2, time = str_of ''a-->b'', src = str_of ''x'', tr = []\<rparr>,
                            \<lparr>index = 1, time = str_of ''c-->d'', src = str_of ''y'', tr = []\<rparr>])
   \<and> map block_lines (srt_blocks (str_of ''a-->b'')) = [[str_of ''a-->b'']]
   \<and> list_ex (contains arrow) (time_window [str_of ''a-->b''])
   \<and> parse_srt (str_of ''a-->b'') = Inr []
   \<and> well_formed_block
         (block_lines (replicate 4301 49 @ NL # str_of ''a-->b'' @ NL # str_of ''x''))
   \<and> parse_srt (replicate 4301 49 @ NL # str_of ''a-->b'' @ NL # str_of ''x'')
       = Inl Value_error_int_digits"
proof -
  let ?T = "str_of ''2'' @ NL # str_of ''a-->b'' @ NL # str_of ''x'' @ NL # NL # str_of ''1'' @ NL # str_of ''c-->d'' @ NL # str_of ''y''"
  have blocks: "srt_blocks ?T = [str_of ''2'' @ NL # str_of ''a-->b'' @ NL # str_of ''x'',
                                 str_of ''1'' @ NL # str_of ''c-->d'' @ NL # str_of ''y'']"
    by (simp add: srt_eval text_eval)
  have wf: "map (\<lambda>b. well_formed_block (block_lines b)) (srt_blocks ?T) = [True, True]"
    unfolding blocks by (simp add: srt_eval text_eval)
  have units: "parse_srt ?T
     = Inr [\<lparr>index = 2, time = str_of ''a-->b'', src = str_of ''x'', tr = []\<rparr>,
            \<lparr>index = 1, time = str_of ''c-->d'', src = str_of ''y'', tr = []\<rparr>]"
    unfolding parse_srt_as_loop blocks
    by (simp add: parse_srt_blocks_def parse_srt_block_def srt_unit_def srt_eval text_eval)
  have one: "srt_blocks (str_of ''a-->b'') = [str_of ''a-->b'']"
    by (simp add: srt_eval text_eval)
  have lines: "map block_lines (srt_blocks (str_of ''a-->b'')) = [[str_of ''a-->b'']]"
    unfolding one by (simp add: srt_eval text_eval)
  have win: "list_ex (contains arrow) (time_window [str_of ''a-->b''])"
    by (simp add: srt_eval text_eval)
  have none: "parse_srt (str_of ''a-->b'') = Inr []"
    unfolding parse_srt_as_loop one
    by (simp add: parse_srt_blocks_def parse_srt_block_def srt_unit_def srt_eval text_eval)
  have unsorted: "\<not> sorted (map index [\<lparr>index = 2, time = str_of ''a-->b'', src = str_of ''x'', tr = []\<rparr>,
                            \<lparr>index = (1::nat), time = str_of ''c-->d'', src = str_of ''y'', tr = []\<rparr>])"
    by simp
  have big: "max_str_digits < 4301" by (simp add: max_str_digits_def)
  note long = long_index_line [OF big]
  have "\<exists>b \<in> set (srt_blocks (replicate 4301 49 @ NL # str_of ''a-->b'' @ NL # str_of ''x'')).
          index_line_too_long (block_lines b)"
    by (simp only: long(1) list.set_intros long(2) bex_simps list.set ball_simps
          insert_iff empty_iff simp_thms)
  then have raises: "parse_srt (replicate 4301 49 @ NL # str_of ''a-->b'' @ NL # str_of ''x'')
                       = Inl Value_error_int_digits"
    unfolding parse_srt_as_loop by (rule parse_srt_blocks_raises)
  show ?thesis by (intro conjI) (rule wf units unsorted lines win none long(3) raises)+
qed

section \<open>The round trip of the codec\<close>

subsection \<open>The decoder does not see the outer whitespace of a reply\<close>

lemma parse_model_line_cong:
  "strip l = strip l' \<Longrightarrow> parse_model_line l m = parse_model_line l' m"
  by (simp add: parse_model_line_def)

lemma parse_model_line_blank: "list_all isspace l \<Longrightarrow> parse_model_line l m = Inr m"
  by (simp add: parse_model_line_def strip_empty_iff [THEN iffD2])

lemma for_each_blank_lines:
  "\<forall>l \<in> set ls. list_all isspace l \<Longrightarrow> for_each parse_model_line ls m = Inr m"
  by (induction ls arbitrary: m) (simp_all add: parse_model_line_blank)

lemma split_on_blank:
  assumes "list_all isspace w" and "l \<in> set (split_on d w)"
  shows "list_all isspace l"
proof -
  from split_on_part [OF assms(2)] obtain a b where "w = a @ l @ b" by blast
  with assms(1) show ?thesis by simp
qed

lemma decode_space_left:
  assumes "list_all isspace w"
  shows "for_each parse_model_line (split_on NL (w @ t)) m
           = for_each parse_model_line (split_on NL t) m"
proof -
  let ?W = "split_on NL w" and ?T = "split_on NL t"
  have W: "?W \<noteq> []" and T: "?T = hd ?T # tl ?T"
    using split_on_nonempty [of NL w] split_on_nonempty [of NL t] by simp_all
  have blank: "\<forall>l \<in> set ?W. list_all isspace l"
    using split_on_blank [OF assms] by blast
  then have b1: "\<forall>l \<in> set (butlast ?W). list_all isspace l"
    by (meson in_set_butlastD)
  have b2: "list_all isspace (last ?W)" using blank W by simp
  have "for_each parse_model_line (split_on NL (w @ t)) m
          = for_each parse_model_line ((last ?W @ hd ?T) # tl ?T) m"
    by (simp add: split_on_append for_each_append for_each_blank_lines [OF b1])
  also have "\<dots> = for_each parse_model_line (hd ?T # tl ?T) m"
    using parse_model_line_cong [OF strip_space_left [OF b2], of "hd ?T" m] by simp
  finally show ?thesis using T by simp
qed

lemma decode_space_right:
  assumes "list_all isspace w"
  shows "for_each parse_model_line (split_on NL (t @ w)) m
           = for_each parse_model_line (split_on NL t) m"
proof -
  let ?W = "split_on NL w" and ?T = "split_on NL t"
  have W: "?W \<noteq> []" and T: "?T = butlast ?T @ [last ?T]"
    using split_on_nonempty [of NL w] split_on_nonempty [of NL t] by simp_all
  have blank: "\<forall>l \<in> set ?W. list_all isspace l"
    using split_on_blank [OF assms] by blast
  then have b1: "\<forall>l \<in> set (tl ?W). list_all isspace l"
    using W by (metis list.set_sel(2))
  have b2: "list_all isspace (hd ?W)" using blank W by simp
  have same: "parse_model_line (last ?T @ hd ?W) m' = parse_model_line (last ?T) m'" for m'
    by (rule parse_model_line_cong) (rule strip_space_right [OF b2])
  have "for_each parse_model_line (split_on NL (t @ w)) m
          = for_each parse_model_line (butlast ?T @ (last ?T @ hd ?W) # tl ?W) m"
    by (simp add: split_on_append)
  also have "\<dots> = for_each parse_model_line (butlast ?T @ [last ?T]) m"
    by (simp add: for_each_append same for_each_blank_lines [OF b1] split: sum.splits)
  finally show ?thesis using T by simp
qed

lemma strip_surround:
  "\<exists>a b. s = a @ strip s @ b \<and> list_all isspace a \<and> list_all isspace b"
proof -
  let ?l = "dropWhile isspace s"
  have "s = takeWhile isspace s @ ?l" by simp
  moreover have "?l = rev (dropWhile isspace (rev ?l)) @ rev (takeWhile isspace (rev ?l))"
    by (metis rev_append rev_rev_ident takeWhile_dropWhile_id)
  ultimately have "s = takeWhile isspace s @ strip s @ rev (takeWhile isspace (rev ?l))"
    by (simp add: strip_def strip_chars_def lstrip_chars_def rstrip_chars_def)
  moreover have "list_all isspace (takeWhile isspace s)"
    by (simp add: list_all_iff) (meson set_takeWhileD)
  moreover have "list_all isspace (rev (takeWhile isspace (rev ?l)))"
    by (simp add: list_all_iff) (meson set_takeWhileD)
  ultimately show ?thesis by blast
qed

lemma decode_strip:
  "for_each parse_model_line (split_on NL (strip t)) m
     = for_each parse_model_line (split_on NL t) m"
proof -
  from strip_surround [of t] obtain a b
    where t: "t = a @ strip t @ b" and a: "list_all isspace a" and b: "list_all isspace b"
    by blast
  have "for_each parse_model_line (split_on NL (a @ strip t @ b)) m
          = for_each parse_model_line (split_on NL (strip t @ b)) m"
    by (rule decode_space_left [OF a])
  also have "\<dots> = for_each parse_model_line (split_on NL (strip t)) m"
    by (rule decode_space_right [OF b])
  finally show ?thesis using t by simp
qed

subsection \<open>The echoed request\<close>

lemma payload_line_returns:
  "length (str_nat (index u)) \<le> max_str_digits
     \<Longrightarrow> payload_line u = Inr (str_nat (index u) @ TAB # flatten_src u)"
  by (simp add: payload_line_def py_str_def)

lemma payload_line_raises:
  "max_str_digits < length (str_nat (index u))
     \<Longrightarrow> payload_line u = Inl Value_error_int_digits"
  by (simp add: payload_line_def py_str_def)

lemma payload_loop:
  "\<forall>u \<in> set units. length (str_nat (index u)) \<le> max_str_digits \<Longrightarrow>
   for_each (\<lambda>it lines. case payload_line it of
                           Inl err \<Rightarrow> Inl err
                         | Inr l \<Rightarrow> Inr (lines @ [l])) units acc
     = Inr (acc @ map (\<lambda>u. str_nat (index u) @ TAB # flatten_src u) units)"
  by (induction units arbitrary: acc) (simp_all add: payload_line_returns)

lemma build_user_payload_returns:
  assumes "\<forall>u \<in> set units. length (str_nat (index u)) \<le> max_str_digits"
  shows "build_user_payload units guide_prompt
           = Inr (payload_header
                  @ join [NL] (map (\<lambda>u. str_nat (index u) @ TAB # flatten_src u) units))"
  unfolding build_user_payload_def payload_loop [OF assms] by simp

lemma build_user_payload_raises:
  assumes "\<exists>u \<in> set units. max_str_digits < length (str_nat (index u))"
  shows "build_user_payload units guide_prompt = Inl Value_error_int_digits"
proof -
  let ?body = "\<lambda>it lines. case payload_line it of
                             Inl err \<Rightarrow> Inl err
                           | Inr l \<Rightarrow> Inr (lines @ [l :: str])"
  from assms obtain u where u: "u \<in> set units" "max_str_digits < length (str_nat (index u))"
    by blast
  have any: "?body y s = Inl Value_error_int_digits \<or> (\<exists>s'. ?body y s = Inr s')" for y s
    using payload_line_raises [of y] payload_line_returns [of y]
    by (cases "max_str_digits < length (str_nat (index y))") simp_all
  have "for_each ?body units [] = Inl Value_error_int_digits"
    by (rule for_each_raises [OF u(1)]) (use u(2) any in \<open>simp_all add: payload_line_raises\<close>)
  then show ?thesis by (simp add: build_user_payload_def)
qed

lemma payload_lines_header: "payload_lines (payload_header @ s) = split_on NL s"
  by (simp add: payload_lines_def)

lemma flatten_src_chars:
  "NL \<notin> set (flatten_src u)" "CR \<notin> set (src u) \<Longrightarrow> CR \<notin> set (flatten_src u)"
proof -
  have "set (flatten_src u) \<subseteq> set (replace1 NL SP (src u))"
    unfolding flatten_src_def by (rule strip_subset)
  then show "NL \<notin> set (flatten_src u)" "CR \<notin> set (src u) \<Longrightarrow> CR \<notin> set (flatten_src u)"
    by (auto simp: replace1_def split: if_splits)
qed

lemma str_nat_chars:
  "NL \<notin> set (str_nat n)" "CR \<notin> set (str_nat n)" "TAB \<notin> set (str_nat n)"
  using str_nat_digits [of _ n] by fastforce+

lemma echo_request_line:
  "echo_line (str_nat (index u) @ TAB # flatten_src u)
     = str_nat (index u) @ COLON # SP # flatten_src u"
proof -
  have digits: "\<forall>x \<in> set (str_nat (index u)). x \<noteq> TAB"
    using str_nat_chars(3) [of "index u"] by blast
  then have "takeWhile (\<lambda>c. c \<noteq> TAB) (str_nat (index u) @ TAB # flatten_src u) = str_nat (index u)"
    by (simp add: takeWhile_tail)
  moreover
  have "dropWhile (\<lambda>c. c \<noteq> TAB) (str_nat (index u) @ TAB # flatten_src u) = TAB # flatten_src u"
    using digits by (simp add: dropWhile_append3)
  ultimately show ?thesis
    by (simp add: echo_line_def split_first_def)
qed

lemma flatten_src_stripped:
  "flatten_src u = [] \<or> (\<not> isspace (hd (flatten_src u)) \<and> \<not> isspace (last (flatten_src u)))"
  unfolding flatten_src_def by (rule strip_ends)

lemma match_reply_line_echo:
  assumes r: "r = [] \<or> (\<exists>f. r = SP # f \<and> f \<noteq> [] \<and> \<not> isspace (hd f))"
  shows "match_reply_line (str_nat n @ COLON # r) = Some (str_nat n, if r = [] then [] else tl r)"
proof -
  have dec: "\<forall>x \<in> set (str_nat n). isdecimal x"
    using str_nat_decimal [of n] by (simp add: list_all_iff)
  then have t: "takeWhile isdecimal (str_nat n @ COLON # r) = str_nat n"
    by (simp add: takeWhile_tail colon_class)
  have d: "dropWhile isdecimal (str_nat n @ COLON # r) = COLON # r"
    using dec by (simp add: dropWhile_append3 colon_class)
  have "dropWhile isspace r = (if r = [] then [] else tl r)"
  proof (cases "r = []")
    case True
    then show ?thesis by simp
  next
    case False
    with r obtain f where f: "r = SP # f" "f \<noteq> []" "\<not> isspace (hd f)" by blast
    then have "dropWhile isspace f = f" by (cases f) simp_all
    then show ?thesis using f by (simp add: isspace_def)
  qed
  then show ?thesis
    by (simp add: match_reply_line_def t d str_nat_nonempty colon_class)
qed

lemma strip_reply_line:
  "strip (str_nat (index u) @ COLON # SP # flatten_src u)
     = str_nat (index u) @ COLON # (if flatten_src u = [] then [] else SP # flatten_src u)"
proof -
  let ?ds = "str_nat (index u)" and ?f = "flatten_src u"
  have hd: "\<not> isspace (hd ?ds)"
    using str_nat_no_space [of "hd ?ds" "index u"] str_nat_nonempty [of "index u"] by simp
  show ?thesis
  proof (cases "?f = []")
    case True
    have "strip ((?ds @ [COLON]) @ [SP]) = strip (?ds @ [COLON])"
      by (rule strip_space_right) (simp add: isspace_def)
    also have "\<dots> = ?ds @ [COLON]"
      by (rule strip_stripped) (use hd str_nat_nonempty [of "index u"] in \<open>simp add: colon_class\<close>)
    finally show ?thesis using True by simp
  next
    case False
    with flatten_src_stripped [of u] have "\<not> isspace (last ?f)" by simp
    then have "strip (?ds @ COLON # SP # ?f) = ?ds @ COLON # SP # ?f"
      using False hd str_nat_nonempty [of "index u"] by (intro strip_stripped) simp
    then show ?thesis using False by simp
  qed
qed

lemma parse_model_line_echo:
  assumes "length (str_nat (index u)) \<le> max_str_digits"
  shows "parse_model_line (str_nat (index u) @ COLON # SP # flatten_src u) m
           = Inr (AList.update (index u) (flatten_src u) m)"
proof -
  let ?r = "if flatten_src u = [] then [] else SP # flatten_src u"
  have "?r = [] \<or> (\<exists>f. ?r = SP # f \<and> f \<noteq> [] \<and> \<not> isspace (hd f))"
    using flatten_src_stripped [of u] by auto
  from match_reply_line_echo [OF this, of "index u"]
  have m: "match_reply_line (str_nat (index u) @ COLON # ?r) = Some (str_nat (index u), flatten_src u)"
    by (simp split: if_splits)
  have "strip (flatten_src u) = flatten_src u"
    unfolding flatten_src_def by (rule strip_idem)
  then show ?thesis
    unfolding parse_model_line_def strip_reply_line
    by (simp add: m str_nat_nonempty py_int_str_nat [OF assms] Let_def)
qed

lemma update_fresh: "k \<notin> fst ` set al \<Longrightarrow> AList.update k v al = al @ [(k, v)]"
  by (induction al) auto

lemma decode_echo_lines:
  "distinct (map fst m @ map index units) \<Longrightarrow>
   \<forall>u \<in> set units. length (str_nat (index u)) \<le> max_str_digits \<Longrightarrow>
   for_each parse_model_line (map (\<lambda>u. str_nat (index u) @ COLON # SP # flatten_src u) units) m
     = Inr (m @ map (\<lambda>u. (index u, flatten_src u)) units)"
proof (induction units arbitrary: m)
  case Nil
  then show ?case by simp
next
  case (Cons u units)
  from Cons.prems(1) have fresh: "index u \<notin> fst ` set m" by auto
  from Cons.prems(1) have "distinct (map fst (m @ [(index u, flatten_src u)]) @ map index units)"
    by auto
  moreover from Cons.prems(2)
  have "\<forall>u \<in> set units. length (str_nat (index u)) \<le> max_str_digits" by simp
  ultimately have "for_each parse_model_line
                     (map (\<lambda>u. str_nat (index u) @ COLON # SP # flatten_src u) units)
                     (m @ [(index u, flatten_src u)])
                   = Inr ((m @ [(index u, flatten_src u)]) @ map (\<lambda>u. (index u, flatten_src u)) units)"
    by (rule Cons.IH)
  moreover from Cons.prems(2) have "length (str_nat (index u)) \<le> max_str_digits" by simp
  ultimately show ?case using fresh
    by (simp add: parse_model_line_echo update_fresh)
qed

lemma set_join: "set (join sep ls) \<subseteq> set sep \<union> \<Union> (set ` set ls)"
  by (induction sep ls rule: join.induct) auto

lemma echo_reply_request:
  "units \<noteq> [] \<Longrightarrow>
   echo_reply (payload_header
               @ join [NL] (map (\<lambda>u. str_nat (index u) @ TAB # flatten_src u) units))
     = join [NL] (map (\<lambda>u. str_nat (index u) @ COLON # SP # flatten_src u) units)"
proof -
  assume ne: "units \<noteq> []"
  then have "split_on NL (join [NL] (map (\<lambda>u. str_nat (index u) @ TAB # flatten_src u) units))
               = map (\<lambda>u. str_nat (index u) @ TAB # flatten_src u) units"
    by (intro split_join) (simp_all add: str_nat_chars flatten_src_chars)
  then show ?thesis
    by (simp add: echo_reply_def payload_lines_header echo_request_line comp_def)
qed

subsection \<open>The sources of parsed units\<close>

text \<open>
  Both parsers replace every carriage return of their input by a newline before they cut
  it, and a source is made of code points of the normalised text and of the spaces that
  join its lines: no unit that the parsers build has a carriage return in its source.
\<close>

lemma normalize_no_cr: "CR \<notin> set (normalize_newlines text)"
  by (auto simp: normalize_newlines_def replace1_def)

lemma strip_chars_subset: "set (strip_chars q s) \<subseteq> set s"
proof -
  from strip_chars_part [of s q] obtain a b where "s = a @ strip_chars q s @ b" by blast
  then have "set s = set a \<union> set (strip_chars q s) \<union> set b" by (metis set_append Un_assoc)
  then show ?thesis by blast
qed

lemma split_on_subset: "l \<in> set (split_on d s) \<Longrightarrow> set l \<subseteq> set s"
proof -
  assume "l \<in> set (split_on d s)"
  from split_on_part [OF this] obtain a b where "s = a @ l @ b" by blast
  then have "set s = set a \<union> set l \<union> set b" by (metis set_append Un_assoc)
  then show ?thesis by blast
qed

lemma re_split_blank_subset: "blk \<in> set (re_split_blank t) \<Longrightarrow> set blk \<subseteq> set t"
proof -
  assume "blk \<in> set (re_split_blank t)"
  from re_split_blank_part [OF this] obtain a b where "t = a @ blk @ b" by blast
  then have "set t = set a \<union> set blk \<union> set b" by (metis set_append Un_assoc)
  then show ?thesis by blast
qed

lemma block_line_chars:
  assumes "b \<in> set (srt_blocks text)" and "ln \<in> set (block_lines b)"
  shows "CR \<notin> set ln"
proof -
  from assms(2) obtain l where l: "l \<in> set (split_on NL b)" "ln = strip_chars (\<lambda>c. c = NL) l"
    by (auto simp: block_lines_def)
  have "set ln \<subseteq> set l" unfolding l(2) by (rule strip_chars_subset)
  also have "\<dots> \<subseteq> set b" using l(1) by (rule split_on_subset)
  also have "\<dots> \<subseteq> set (strip (normalize_newlines text))"
    using assms(1) unfolding srt_blocks_def by (rule re_split_blank_subset)
  also have "\<dots> \<subseteq> set (normalize_newlines text)" by (rule strip_subset)
  finally show ?thesis using normalize_no_cr [of "text"] by blast
qed

lemma tsv_line_chars:
  assumes "ln \<in> set (tsv_lines text)"
  shows "CR \<notin> set ln"
proof -
  from assms have "ln \<in> set (split_on NL (strip (normalize_newlines text)))"
    by (simp add: tsv_lines_def)
  then have "set ln \<subseteq> set (strip (normalize_newlines text))" by (rule split_on_subset)
  also have "\<dots> \<subseteq> set (normalize_newlines text)" by (rule strip_subset)
  finally show ?thesis using normalize_no_cr [of "text"] by blast
qed

lemma srt_unit_src:
  assumes "srt_unit n lines = Inr (Some u)"
  shows "set (src u) \<subseteq> insert SP (\<Union> (set ` set lines))"
proof -
  from assms obtain s where "src u = strip (join [SP] (map strip (drop s lines)))"
    by (auto simp: srt_unit_def Let_def split: if_splits sum.splits option.splits prod.splits)
  then have "set (src u) \<subseteq> set (join [SP] (map strip (drop s lines)))"
    by (simp add: strip_subset)
  also have "\<dots> \<subseteq> set [SP] \<union> \<Union> (set ` set (map strip (drop s lines)))"
    by (rule set_join)
  also have "\<dots> \<subseteq> insert SP (\<Union> (set ` set lines))"
  proof -
    have "set (strip l) \<subseteq> \<Union> (set ` set lines)" if "l \<in> set (drop s lines)" for l
      using that strip_subset [of l] in_set_dropD [of l s lines] by blast
    then show ?thesis by auto
  qed
  finally show ?thesis .
qed

lemma tsv_unit_src:
  assumes "tsv_unit c ln = Inr u"
  shows "set (src u) \<subseteq> set ln"
proof -
  have right: "set (strip (snd (split_first d ln))) \<subseteq> set ln" for d
  proof -
    have tl_sub: "set (tl ys) \<subseteq> set ys" for ys :: str
      by (cases ys) auto
    have "set (tl (dropWhile (\<lambda>c. c \<noteq> d) ln)) \<subseteq> set (dropWhile (\<lambda>c. c \<noteq> d) ln)"
      by (rule tl_sub)
    also have "\<dots> \<subseteq> set ln" by (auto dest: set_dropWhileD)
    finally have "set (snd (split_first d ln)) \<subseteq> set ln" by (simp add: split_first_def)
    with strip_subset [of "snd (split_first d ln)"] show ?thesis by blast
  qed
  from assms have "src u = strip ln
      \<or> src u = strip (snd (split_first TAB ln)) \<or> src u = strip (snd (split_first COMMA ln))"
    by (auto simp: tsv_unit_def Let_def split: if_splits sum.splits option.splits prod.splits)
  then show ?thesis
    using strip_subset [of ln] right [of TAB] right [of COMMA] by auto
qed

lemma parse_srt_blocks_origin:
  "parse_srt_blocks bs acc = Inr r \<Longrightarrow>
   \<forall>u \<in> set r. u \<in> set acc \<or> (\<exists>b \<in> set bs. \<exists>n. srt_unit n (block_lines b) = Inr (Some u))"
proof (induction bs arbitrary: acc)
  case Nil
  then show ?case by (simp add: parse_srt_blocks_Nil)
next
  case (Cons b bs)
  from Cons.prems obtain acc' where step: "parse_srt_block acc b = Inr acc'"
    and rest: "parse_srt_blocks bs acc' = Inr r"
    by (auto simp: parse_srt_blocks_Cons split: sum.splits)
  from step have acc': "\<forall>u \<in> set acc'. u \<in> set acc
                          \<or> (\<exists>n. srt_unit n (block_lines b) = Inr (Some u))"
    by (auto simp: parse_srt_block_def split: sum.splits option.splits)
  from Cons.IH [OF rest] acc' show ?case by (simp, blast)
qed

lemma tsv_loop_origin:
  "for_each (\<lambda>ln st. parse_tsv_line st ln) lines st = Inr st' \<Longrightarrow>
   \<forall>u \<in> set (fst st'). u \<in> set (fst st) \<or> (\<exists>ln \<in> set lines. \<exists>c. tsv_unit c ln = Inr u)"
proof (induction lines arbitrary: st)
  case Nil
  then show ?case by simp
next
  case (Cons ln lines)
  from Cons.prems obtain st1 where step: "parse_tsv_line st ln = Inr st1"
    and rest: "for_each (\<lambda>ln st. parse_tsv_line st ln) lines st1 = Inr st'"
    by (auto split: sum.splits)
  from step have st1: "\<forall>u \<in> set (fst st1). u \<in> set (fst st) \<or> (\<exists>c. tsv_unit c ln = Inr u)"
    by (auto simp: parse_tsv_line_def Let_def split: sum.splits)
  from Cons.IH [OF rest] st1 show ?case by (simp, blast)
qed

lemma parse_srt_sources:
  assumes "parse_srt text = Inr units"
  shows "\<forall>u \<in> set units. CR \<notin> set (src u)"
proof
  fix u assume "u \<in> set units"
  with parse_srt_blocks_origin [of "srt_blocks text" "[]" units] assms
  obtain b n where b: "b \<in> set (srt_blocks text)"
    and u: "srt_unit n (block_lines b) = Inr (Some u)"
    by (auto simp: parse_srt_as_loop)
  have "CR \<notin> \<Union> (set ` set (block_lines b))"
    using block_line_chars [OF b] by blast
  with srt_unit_src [OF u] show "CR \<notin> set (src u)" by auto
qed

lemma parse_tsv_sources:
  assumes "parse_tsv_like text = Inr units"
  shows "\<forall>u \<in> set units. CR \<notin> set (src u)"
proof
  fix u assume u: "u \<in> set units"
  from assms obtain st' where loop: "for_each (\<lambda>ln st. parse_tsv_line st ln) (tsv_lines text)
                                       ([], 1) = Inr st'"
    and units: "units = fst st'"
    by (auto simp: parse_tsv_like_loop split: sum.splits)
  from tsv_loop_origin [OF loop] u units obtain ln c
    where "ln \<in> set (tsv_lines text)" "tsv_unit c ln = Inr u"
    by auto
  with tsv_unit_src [of c ln u] tsv_line_chars [of ln "text"] show "CR \<notin> set (src u)" by blast
qed

lemma parsed_sources:
  assumes "detect_and_parse_subtitles text = Inr (parsed, fmt)"
  shows "\<forall>p \<in> set parsed. CR \<notin> set (src p)"
proof -
  from assms have "parse_srt text = Inr parsed \<or> parse_tsv_like text = Inr parsed"
    by (auto simp: detect_and_parse_subtitles_def Let_def split: if_splits sum.splits)
  then show ?thesis using parse_srt_sources parse_tsv_sources by blast
qed

subsection \<open>The round trip\<close>

text \<open>
  Claim C1. Take the units that the parsers return for a text, and any list of units with
  pairwise distinct indices, each with the index and the source of a parsed unit (the
  batches of a run are such lists: the program changes only the translation of a unit).
  Encode the list with \<open>build_user_payload\<close>, let the service echo every request line
  \<open><index><TAB><flattened source>\<close> as the reply line \<open><index>: <flattened source>\<close>,
  and decode the reply with \<open>parse_model_output\<close>. The result is the dictionary that
  binds, in the order of the units, every index to the flattened source of its unit: its
  keys are exactly the indices of the units and its values their flattened sources
  (newlines replaced by spaces, then trimmed). The encoder raises instead when an index
  has more digits than \<open>str\<close> prints, which no index that \<open>int\<close> has read does
  (\<open>py_int_prints\<close>).
\<close>

theorem codec_round_trip:
  assumes parsed: "detect_and_parse_subtitles text = Inr (parsed, fmt)"
    and table: "\<forall>u \<in> set units. \<exists>p \<in> set parsed. index u = index p \<and> src u = src p"
    and dist: "distinct (map index units)"
  shows "if \<exists>u \<in> set units. max_str_digits < length (str_nat (index u))
         then build_user_payload units guide_prompt = Inl Value_error_int_digits
         else \<exists>payload m.
                build_user_payload units guide_prompt = Inr payload
              \<and> parse_model_output (echo_reply payload) = Inr m
              \<and> m = map (\<lambda>u. (index u, flatten_src u)) units
              \<and> fst ` set m = index ` set units
              \<and> (\<forall>u \<in> set units. map_of m (index u) = Some (flatten_src u))"
proof (cases "\<exists>u \<in> set units. max_str_digits < length (str_nat (index u))")
  case True
  then have "build_user_payload units guide_prompt = Inl Value_error_int_digits"
    by (rule build_user_payload_raises)
  with True show ?thesis by (simp only: if_True)
next
  case False
  then have short: "\<forall>u \<in> set units. length (str_nat (index u)) \<le> max_str_digits"
    by (simp add: not_less)
  have cr: "\<forall>u \<in> set units. CR \<notin> set (src u)"
    using table parsed_sources [OF parsed] by fastforce
  let ?req = "\<lambda>u. str_nat (index u) @ TAB # flatten_src u"
  let ?line = "\<lambda>u. str_nat (index u) @ COLON # SP # flatten_src u"
  let ?entry = "\<lambda>u. (index u, flatten_src u)"
  let ?payload = "payload_header @ join [NL] (map ?req units)"
  have built: "build_user_payload units guide_prompt = Inr ?payload"
    by (rule build_user_payload_returns [OF short])
  have out: "parse_model_output (echo_reply ?payload) = Inr (map ?entry units)"
  proof (cases "units = []")
    case True
    have "echo_reply (payload_header @ join [NL] []) = []"
      by (simp add: echo_reply_def payload_lines_def echo_line_def)
    then show ?thesis using True
      by (simp add: parse_model_output_def normalize_newlines_id strip_Nil parse_model_line_def)
  next
    case False
    let ?R = "join [NL] (map ?line units)"
    have R: "echo_reply ?payload = ?R"
      by (rule echo_reply_request [OF False])
    have nl: "\<forall>l \<in> set (map ?line units). NL \<notin> set l"
      by (simp add: str_nat_chars flatten_src_chars)
    have "\<forall>l \<in> set (map ?line units). CR \<notin> set l"
      using cr by (simp add: str_nat_chars flatten_src_chars)
    then have "CR \<notin> set [NL] \<union> \<Union> (set ` set (map ?line units))" by auto
    then have "CR \<notin> set ?R" using set_join [of "[NL]" "map ?line units"] by blast
    then have "parse_model_output ?R = for_each parse_model_line (split_on NL (strip ?R)) []"
      by (simp add: parse_model_output_def normalize_newlines_id)
    also have "\<dots> = for_each parse_model_line (split_on NL ?R) []"
      by (rule decode_strip)
    also have "split_on NL ?R = map ?line units"
      using False nl by (intro split_join) simp_all
    also have "for_each parse_model_line (map ?line units) [] = Inr ([] @ map ?entry units)"
      using dist short by (intro decode_echo_lines) simp_all
    finally show ?thesis using R by simp
  qed
  have keys: "fst ` set (map ?entry units) = index ` set units"
    by (simp add: image_image)
  have vals: "\<forall>u \<in> set units. map_of (map ?entry units) (index u) = Some (flatten_src u)"
  proof
    fix u assume "u \<in> set units"
    then have "(index u, flatten_src u) \<in> set (map ?entry units)" by auto
    moreover have "distinct (map fst (map ?entry units))"
      using dist by (simp add: comp_def)
    ultimately show "map_of (map ?entry units) (index u) = Some (flatten_src u)"
      by (rule map_of_is_SomeI [rotated])
  qed
  show ?thesis
    unfolding if_not_P [OF False]
    by (rule exI [of _ ?payload], rule exI [of _ "map ?entry units"])
       (intro conjI, (rule built out refl keys vals)+)
qed

theorem codec_round_trip_witness:
  "detect_and_parse_subtitles (str_of ''7'' @ TAB # str_of ''Hi you'' @ NL # str_of ''12'' @ TAB # str_of ''ok'')
     = Inr ([\<lparr>index = 7, time = [], src = str_of ''Hi you'', tr = []\<rparr>,
             \<lparr>index = 12, time = [], src = str_of ''ok'', tr = []\<rparr>], Tsv)
   \<and> (\<exists>payload. build_user_payload
                   [\<lparr>index = 7, time = [], src = str_of ''Hi you'', tr = []\<rparr>,
                    \<lparr>index = 12, time = [], src = str_of ''ok'', tr = []\<rparr>] (str_of ''guide'')
                 = Inr payload
         \<and> parse_model_output (echo_reply payload)
             = Inr [(7, str_of ''Hi you''), (12, str_of ''ok'')])"
proof -
  let ?T = "str_of ''7'' @ TAB # str_of ''Hi you'' @ NL # str_of ''12'' @ TAB # str_of ''ok''"
  let ?us = "[\<lparr>index = 7, time = [], src = str_of ''Hi you'', tr = []\<rparr>,
              \<lparr>index = 12, time = [], src = str_of ''ok'', tr = []\<rparr>]"
  have h1: "detect_and_parse_subtitles ?T = Inr (?us, Tsv)"
    by (simp add: detect_and_parse_subtitles_def parse_tsv_like_def normalize_newlines_def
          replace1_def parse_tsv_line_def tsv_unit_def split_first_def digits_eval arrow_def
          text_eval)
  have h2: "\<forall>u \<in> set ?us. \<exists>p \<in> set ?us. index u = index p \<and> src u = src p" by simp
  have h3: "distinct (map index ?us)" by simp
  have short: "\<not> (\<exists>u \<in> set ?us. max_str_digits < length (str_nat (index u)))"
    by (simp add: str_nat.simps max_str_digits_def)
  have f: "map (\<lambda>u. (index u, flatten_src u)) ?us = [(7, str_of ''Hi you''), (12, str_of ''ok'')]"
    by (simp add: flatten_src_def replace1_def text_eval)
  note run = codec_round_trip [OF h1 h2 h3, of "str_of ''guide''", unfolded if_not_P [OF short]]
  then obtain payload m
    where p: "build_user_payload ?us (str_of ''guide'') = Inr payload"
      and m: "parse_model_output (echo_reply payload) = Inr m"
      and v: "m = map (\<lambda>u. (index u, flatten_src u)) ?us"
    by (elim exE conjE)
  from m have "parse_model_output (echo_reply payload)
                 = Inr [(7, str_of ''Hi you''), (12, str_of ''ok'')]"
    unfolding v f .
  with p have "build_user_payload ?us (str_of ''guide'') = Inr payload
             \<and> parse_model_output (echo_reply payload)
                 = Inr [(7, str_of ''Hi you''), (12, str_of ''ok'')]"
    by (rule conjI)
  then show ?thesis using h1 by (intro conjI exI [of _ payload]) simp_all
qed


end
